theory Spec2Isabelle
  imports Main
begin

section \<open>A filesystem snapshot\<close>

text \<open>
  The program only talks to the filesystem through \<open>pathlib\<close> and \<open>os\<close>. The
  filesystem is modelled as a tree. A path is the list of its components below the
  filesystem root, so \<open>[]\<close> is \<open>/\<close> and \<open>[''home'', ''me'']\<close> is \<open>/home/me\<close>.

  A file carries its size (\<open>st_size\<close>, never negative) and two flags: whether
  \<open>stat\<close> on it succeeds and whether \<open>unlink\<close> on it succeeds. A directory
  carries two flags too: whether listing it (\<open>iterdir\<close>, \<open>scandir\<close>) succeeds and
  whether \<open>rmdir\<close> is permitted once it is empty; and its entries in listing order.
  Symbolic links are outside the model, and nothing but the program changes the tree
  while it runs.

  The tree itself says nothing about search permission: \<open>lookup\<close>, \<open>exists\<close>
  and \<open>is_dir\<close> describe paths that lie below directories that can be searched,
  where \<open>stat\<close> of a path only fails where a file says so. Directories that
  cannot be searched are a separate list, \<open>locked\<close>, from which the cleaner's
  entry points \<open>safe_delete_venv_call\<close> and \<open>delete_multiple_venvs_call\<close>
  read the \<open>PermissionError\<close> that \<open>Path.exists\<close> and
  \<open>Path.is_dir\<close> pass on.
\<close>

type_synonym path = "string list"

datatype node =
    File nat bool bool
  | Dir bool bool "(string \<times> node) list"

fun lookup :: "node \<Rightarrow> path \<Rightarrow> node option" where
  "lookup n [] = Some n"
| "lookup (File sz st ul) (c # cs) = None"
| "lookup (Dir ls rm es) (c # cs) =
     (case map_of es c of None \<Rightarrow> None | Some n \<Rightarrow> lookup n cs)"

definition exists :: "node \<Rightarrow> path \<Rightarrow> bool" where
  "exists fs p = (lookup fs p \<noteq> None)"

definition is_dir :: "node \<Rightarrow> path \<Rightarrow> bool" where
  "is_dir fs p = (case lookup fs p of Some (Dir ls rm es) \<Rightarrow> True | _ \<Rightarrow> False)"

text \<open>\<open>Path.name\<close>: the last component, the empty string for the root.\<close>

fun name :: "path \<Rightarrow> string" where
  "name [] = []"
| "name p = last p"


fun join :: "string \<Rightarrow> string list \<Rightarrow> string" where
  "join sep [] = []"
| "join sep [x] = x"
| "join sep (x # y # ys) = x @ sep @ join sep (y # ys)"

text \<open>\<open>str(path)\<close> of an absolute POSIX path.\<close>

definition str_path :: "path \<Rightarrow> string" where
  "str_path p = CHR ''/'' # join ''/'' p"

datatype errno = EACCES | ENOENT | ENOTDIR | ENOTEMPTY | EBUSY

text \<open>
  The exceptions that occur: \<open>OSError\<close> with its subclasses (\<open>PermissionError\<close> is
  \<open>OSError EACCES\<close>), \<open>ZeroDivisionError\<close>, and any other \<open>Exception\<close> a
  callback may raise.
\<close>

datatype exn = OSError errno path | ZeroDivisionError | OtherException string

text \<open>\<open>Path.iterdir\<close>: the children of a directory in listing order, or the error.\<close>

definition iterdir :: "node \<Rightarrow> path \<Rightarrow> exn + path list" where
  "iterdir fs p =
     (case lookup fs p of
        None \<Rightarrow> Inl (OSError ENOENT p)
      | Some (File sz st ul) \<Rightarrow> Inl (OSError ENOTDIR p)
      | Some (Dir ls rm es) \<Rightarrow>
          if ls then Inr (map (\<lambda>e. p @ [fst e]) es) else Inl (OSError EACCES p))"

section \<open>finder.py\<close>

text \<open>
  \<open>VENV_IDENTIFIERS\<close>. \<open>path / 'bin/activate'\<close> appends the two components
  \<open>bin\<close> and \<open>activate\<close>, so each identifier is kept as its component list.
\<close>

definition VENV_IDENTIFIERS :: "path list" where
  "VENV_IDENTIFIERS =
     [[''pyvenv.cfg''],
      [''bin'', ''activate''],
      [''Scripts'', ''activate''],
      [''bin'', ''python''],
      [''Scripts'', ''python.exe'']]"

text \<open>The loop \<open>for identifier in VENV_IDENTIFIERS\<close> with its early return.\<close>

fun check_identifiers :: "node \<Rightarrow> path \<Rightarrow> path list \<Rightarrow> bool" where
  "check_identifiers fs p [] = False"
| "check_identifiers fs p (identifier # rest) =
     (if exists fs (p @ identifier) then True else check_identifiers fs p rest)"

definition is_virtual_env :: "node \<Rightarrow> path \<Rightarrow> bool" where
  "is_virtual_env fs p =
     (if \<not> is_dir fs p then False else check_identifiers fs p VENV_IDENTIFIERS)"

text \<open>\<open>str.lower\<close> on ASCII letters; other characters are left as they are.\<close>

definition lower_char :: "char \<Rightarrow> char" where
  "lower_char c =
     (let k = (of_char c :: nat) in if 65 \<le> k \<and> k \<le> 90 then char_of (k + 32) else c)"

definition lower :: "string \<Rightarrow> string" where
  "lower s = map lower_char s"

definition startswith_dot :: "string \<Rightarrow> bool" where
  "startswith_dot s = (case s of [] \<Rightarrow> False | c # cs \<Rightarrow> c = CHR ''.'')"

text \<open>The condition under which the loop of \<open>find_venvs_in_dir\<close> descends into an item.\<close>

definition descend_into :: "node \<Rightarrow> path \<Rightarrow> bool" where
  "descend_into fs item =
     (is_dir fs item \<and>
       ((startswith_dot (name item) \<and> lower (name item) \<in> {''.venv'', ''.env'', ''.virtualenv''})
        \<or> \<not> startswith_dot (name item)))"

text \<open>
  \<open>find_venvs_in_dir\<close>. The generator's yields are the returned list, in order. An
  error of \<open>iterdir\<close> ends the loop with nothing yielded from it.
\<close>

function find_venvs_in_dir :: "node \<Rightarrow> path \<Rightarrow> int \<Rightarrow> string set \<Rightarrow> path list" where
  "find_venvs_in_dir fs directory max_depth exclude_dirs =
     (if name directory \<in> exclude_dirs then []
      else if is_virtual_env fs directory then [directory]
      else if max_depth \<le> 0 then []
      else (case iterdir fs directory of
              Inl e \<Rightarrow> []
            | Inr items \<Rightarrow>
                concat (map (\<lambda>item.
                  if descend_into fs item
                  then find_venvs_in_dir fs item (max_depth - 1) exclude_dirs
                  else []) items)))"
  by pat_completeness auto
termination
  by (relation "measure (\<lambda>(fs, directory, max_depth, exclude_dirs). nat max_depth)") auto

declare find_venvs_in_dir.simps [simp del]

text \<open>
  \<open>find_venvs\<close>. \<open>start_path\<close> is the already resolved absolute start directory and
  \<open>sys_platform\<close> is \<open>sys.platform\<close>. \<open>executor.map\<close> returns the results in the
  order of \<open>top_dirs\<close>, and every task only reads the snapshot.
\<close>

definition system_dirs :: "string \<Rightarrow> string set" where
  "system_dirs sys_platform =
     (if sys_platform = ''win32''
      then {''Windows'', ''Program Files'', ''Program Files (x86)''}
      else {''proc'', ''sys'', ''dev'', ''run''})"

definition find_venvs :: "string \<Rightarrow> node \<Rightarrow> path \<Rightarrow> int \<Rightarrow> string list \<Rightarrow> bool \<Rightarrow> path list" where
  "find_venvs sys_platform fs start_path max_depth exclude_dirs parallel =
     (let exclude_set = set exclude_dirs \<union> system_dirs sys_platform
      in if \<not> parallel then find_venvs_in_dir fs start_path max_depth exclude_set
         else (case iterdir fs start_path of
                 Inl e \<Rightarrow> []
               | Inr items \<Rightarrow>
                   (let top_dirs = filter (\<lambda>d. is_dir fs d \<and> name d \<notin> exclude_set) items
                    in concat (map (\<lambda>d. find_venvs_in_dir fs d (max_depth - 1) exclude_set)
                                 top_dirs))))"





section \<open>cleaner.py\<close>

text \<open>\<open>str(e)\<close> of an exception.\<close>

fun strerror :: "errno \<Rightarrow> string" where
  "strerror EACCES = ''[Errno 13] Permission denied''"
| "strerror ENOENT = ''[Errno 2] No such file or directory''"
| "strerror ENOTDIR = ''[Errno 20] Not a directory''"
| "strerror ENOTEMPTY = ''[Errno 39] Directory not empty''"
| "strerror EBUSY = ''[Errno 16] Device or resource busy''"

fun str_exn :: "exn \<Rightarrow> string" where
  "str_exn (OSError en p) = strerror en @ '': '' @ [CHR 0x27] @ str_path p @ [CHR 0x27]"
| "str_exn ZeroDivisionError = ''division by zero''"
| "str_exn (OtherException msg) = msg"

text \<open>What \<open>except (OSError, PermissionError)\<close> catches.\<close>

fun is_oserror :: "exn \<Rightarrow> bool" where
  "is_oserror (OSError en p) = True"
| "is_oserror e = False"

text \<open>
  Decimal text of a natural number, as an f-string prints it. \<open>digit\<close> is only
  applied to numbers below ten.
\<close>

definition digit :: "nat \<Rightarrow> char" where
  "digit d = ''0123456789'' ! d"

fun str_nat :: "nat \<Rightarrow> string" where
  "str_nat n = (if n < 10 then [digit n] else str_nat (n div 10) @ [digit (n mod 10)])"

declare str_nat.simps [simp del]

text \<open>
  The size walk \<open>for root, dirs, files in os.walk(path)\<close> that sums \<open>st_size\<close>:
  a file whose \<open>stat\<close> fails is skipped, a directory that cannot be listed yields
  nothing, and so does a path that is not a directory.
\<close>

fun walk_size :: "node \<Rightarrow> nat"
  and walk_size_entries :: "(string \<times> node) list \<Rightarrow> nat" where
  "walk_size (File sz stat_ok unlink_ok) = 0"
| "walk_size (Dir ls rm es) = (if ls then walk_size_entries es else 0)"
| "walk_size_entries [] = 0"
| "walk_size_entries ((file, File sz stat_ok unlink_ok) # rest) =
     (if stat_ok then sz else 0) + walk_size_entries rest"
| "walk_size_entries ((d, Dir ls rm es) # rest) =
     walk_size (Dir ls rm es) + walk_size_entries rest"

definition size_at :: "node \<Rightarrow> path \<Rightarrow> nat" where
  "size_at fs p = (case lookup fs p of None \<Rightarrow> 0 | Some n \<Rightarrow> walk_size n)"

text \<open>
  The local variables of \<open>safe_delete_venv\<close> that the deletion walk updates, and
  the arguments of every call of the progress callback, in the order of the calls.
\<close>

record dstate =
  bytes_removed :: nat
  errors :: "string list"
  calls :: "(nat \<times> nat) list"

text \<open>
  A progress callback, applied to \<open>bytes_removed\<close> and \<open>total_size\<close>: \<open>None\<close>
  when it returns, the exception when it raises.
\<close>

type_synonym progress = "nat \<Rightarrow> nat \<Rightarrow> exn option"

definition add_error :: "string \<Rightarrow> dstate \<Rightarrow> dstate" where
  "add_error msg st = st\<lparr>errors := errors st @ [msg]\<rparr>"

text \<open>An entry that stays in the directory is put back in front of the others.\<close>

fun keep :: "'a \<Rightarrow> 'x \<times> 'a list \<times> 's \<Rightarrow> 'x \<times> 'a list \<times> 's" where
  "keep e (x, es, st) = (x, e # es, st)"

text \<open>The three messages appended to \<open>errors\<close>.\<close>

definition file_error :: "path \<Rightarrow> exn \<Rightarrow> string" where
  "file_error file_path e = ''Error deleting file '' @ str_path file_path @ '': '' @ str_exn e"

definition dir_error :: "path \<Rightarrow> exn \<Rightarrow> string" where
  "dir_error dir_path e = ''Error deleting directory '' @ str_path dir_path @ '': '' @ str_exn e"

definition root_error :: "exn \<Rightarrow> string" where
  "root_error e2 = ''Error deleting root directory: '' @ str_exn e2"

text \<open>
  The \<open>try\<close> statement inside \<open>for file in files\<close>, for the file at
  \<open>file_path\<close>: \<open>stat\<close>, \<open>unlink\<close>, add the size, call the callback. An
  \<open>OSError\<close> in any of these, the callback included, is recorded; any other
  exception of the callback is not caught here. The result is the exception that was
  not caught, if any, whether the file was unlinked, and the state.
\<close>

definition delete_file ::
  "progress option \<Rightarrow> nat \<Rightarrow> path \<Rightarrow> nat \<Rightarrow> bool \<Rightarrow> bool \<Rightarrow> dstate
     \<Rightarrow> exn option \<times> bool \<times> dstate" where
  "delete_file cb total_size file_path sz stat_ok unlink_ok st =
     (if \<not> stat_ok then
        (None, False, add_error (file_error file_path (OSError EACCES file_path)) st)
      else if \<not> unlink_ok then
        (None, False, add_error (file_error file_path (OSError EACCES file_path)) st)
      else
        (let st1 = st\<lparr>bytes_removed := bytes_removed st + sz\<rparr> in
         case cb of
           None \<Rightarrow> (None, True, st1)
         | Some progress_callback \<Rightarrow>
             (let st2 = st1\<lparr>calls := calls st1 @ [(bytes_removed st1, total_size)]\<rparr> in
              case progress_callback (bytes_removed st1) total_size of
                None \<Rightarrow> (None, True, st2)
              | Some e \<Rightarrow>
                  if is_oserror e then (None, True, add_error (file_error file_path e) st2)
                  else (Some e, True, st2))))"

text \<open>
  \<open>for file in files\<close> over the entries of the directory \<open>root\<close>: the
  subdirectories are not in \<open>files\<close> and stay; an exception that is not caught
  leaves the loop with the rest untouched.
\<close>

fun delete_files ::
  "progress option \<Rightarrow> nat \<Rightarrow> path \<Rightarrow> (string \<times> node) list \<Rightarrow> dstate
     \<Rightarrow> exn option \<times> (string \<times> node) list \<times> dstate" where
  "delete_files cb total_size root [] st = (None, [], st)"
| "delete_files cb total_size root ((d, Dir ls rm es) # rest) st =
     keep (d, Dir ls rm es) (delete_files cb total_size root rest st)"
| "delete_files cb total_size root ((file, File sz stat_ok unlink_ok) # rest) st =
     (case delete_file cb total_size (root @ [file]) sz stat_ok unlink_ok st of
        (Some e, removed, st') \<Rightarrow>
          (Some e, (if removed then rest else (file, File sz stat_ok unlink_ok) # rest), st')
      | (None, removed, st') \<Rightarrow>
          if removed then delete_files cb total_size root rest st'
          else keep (file, File sz stat_ok unlink_ok)
                 (delete_files cb total_size root rest st'))"

text \<open>\<open>rmdir\<close>: the error it raises, if any. The filesystem root cannot be removed.\<close>

definition rmdir_error :: "path \<Rightarrow> node \<Rightarrow> exn option" where
  "rmdir_error p n =
     (if p = [] then Some (OSError EBUSY p)
      else case n of
             File sz stat_ok unlink_ok \<Rightarrow> Some (OSError ENOTDIR p)
           | Dir ls rm es \<Rightarrow>
               if es \<noteq> [] then Some (OSError ENOTEMPTY p)
               else if \<not> rm then Some (OSError EACCES p)
               else None)"

text \<open>\<open>for dir in dirs\<close>: \<open>rmdir\<close>, recording each failure.\<close>

fun remove_dirs ::
  "path \<Rightarrow> (string \<times> node) list \<Rightarrow> dstate \<Rightarrow> (string \<times> node) list \<times> dstate" where
  "remove_dirs root [] st = ([], st)"
| "remove_dirs root ((file, File sz stat_ok unlink_ok) # rest) st =
     (case remove_dirs root rest st of
        (rest', st') \<Rightarrow> ((file, File sz stat_ok unlink_ok) # rest', st'))"
| "remove_dirs root ((d, Dir ls rm es) # rest) st =
     (case rmdir_error (root @ [d]) (Dir ls rm es) of
        None \<Rightarrow> remove_dirs root rest st
      | Some e \<Rightarrow>
          (case remove_dirs root rest (add_error (dir_error (root @ [d]) e) st) of
             (rest', st') \<Rightarrow> ((d, Dir ls rm es) # rest', st')))"

text \<open>
  \<open>os.walk(venv_path, topdown=False)\<close> with the loop body of \<open>safe_delete_venv\<close>.
  A directory is listed once, before anything below it is visited; its subdirectories
  are walked in listing order; then the body runs for the directory itself: files first,
  then \<open>rmdir\<close> of each subdirectory. A directory that cannot be listed is passed
  over silently. The result is the exception that left the walk, if any, what remains
  of the directory, and the state.
\<close>

function walk_delete ::
  "progress option \<Rightarrow> nat \<Rightarrow> path \<Rightarrow> node \<Rightarrow> dstate \<Rightarrow> exn option \<times> node \<times> dstate"
  and walk_subdirs ::
  "progress option \<Rightarrow> nat \<Rightarrow> path \<Rightarrow> (string \<times> node) list \<Rightarrow> dstate
     \<Rightarrow> exn option \<times> (string \<times> node) list \<times> dstate" where
  "walk_delete cb total_size root (File sz stat_ok unlink_ok) st =
     (None, File sz stat_ok unlink_ok, st)"
| "walk_delete cb total_size root (Dir ls rm es) st =
     (if \<not> ls then (None, Dir ls rm es, st)
      else case walk_subdirs cb total_size root es st of
             (Some e, es1, st1) \<Rightarrow> (Some e, Dir ls rm es1, st1)
           | (None, es1, st1) \<Rightarrow>
               (case delete_files cb total_size root es1 st1 of
                  (Some e, es2, st2) \<Rightarrow> (Some e, Dir ls rm es2, st2)
                | (None, es2, st2) \<Rightarrow>
                    (case remove_dirs root es2 st2 of
                       (es3, st3) \<Rightarrow> (None, Dir ls rm es3, st3))))"
| "walk_subdirs cb total_size root [] st = (None, [], st)"
| "walk_subdirs cb total_size root ((file, File sz stat_ok unlink_ok) # rest) st =
     keep (file, File sz stat_ok unlink_ok) (walk_subdirs cb total_size root rest st)"
| "walk_subdirs cb total_size root ((d, Dir ls rm es) # rest) st =
     (case walk_delete cb total_size (root @ [d]) (Dir ls rm es) st of
        (Some e, n', st') \<Rightarrow> (Some e, (d, n') # rest, st')
      | (None, n', st') \<Rightarrow> keep (d, n') (walk_subdirs cb total_size root rest st'))"
  by pat_completeness auto
termination
  by (relation "measure (\<lambda>x. case x of
          Inl (cb, total_size, root, n, st) \<Rightarrow> size n
        | Inr (cb, total_size, root, es, st) \<Rightarrow> size_list (size_prod (\<lambda>x. 0) size) es)")
     auto

text \<open>
  \<open>shutil.rmtree\<close>: entries in listing order, a directory's content before the
  directory, stopping at the first error. \<open>None\<close> when the tree is gone, otherwise
  the error and what remains.
\<close>

function rmtree :: "path \<Rightarrow> node \<Rightarrow> (exn \<times> node) option"
  and rmtree_entries :: "path \<Rightarrow> (string \<times> node) list \<Rightarrow> (exn \<times> (string \<times> node) list) option" where
  "rmtree p (File sz stat_ok unlink_ok) = Some (OSError ENOTDIR p, File sz stat_ok unlink_ok)"
| "rmtree p (Dir ls rm es) =
     (if \<not> ls then Some (OSError EACCES p, Dir ls rm es)
      else case rmtree_entries p es of
             Some (e, es') \<Rightarrow> Some (e, Dir ls rm es')
           | None \<Rightarrow>
               (case rmdir_error p (Dir ls rm []) of
                  Some e \<Rightarrow> Some (e, Dir ls rm [])
                | None \<Rightarrow> None))"
| "rmtree_entries p [] = None"
| "rmtree_entries p ((file, File sz stat_ok unlink_ok) # rest) =
     (if unlink_ok then rmtree_entries p rest
      else Some (OSError EACCES (p @ [file]), (file, File sz stat_ok unlink_ok) # rest))"
| "rmtree_entries p ((d, Dir ls rm es) # rest) =
     (case rmtree (p @ [d]) (Dir ls rm es) of
        Some (e, n') \<Rightarrow> Some (e, (d, n') # rest)
      | None \<Rightarrow> rmtree_entries p rest)"
  by pat_completeness auto
termination
  by (relation "measure (\<lambda>x. case x of
          Inl (p, n) \<Rightarrow> size n
        | Inr (p, es) \<Rightarrow> size_list (size_prod (\<lambda>x. 0) size) es)")
     auto

text \<open>
  Writing a node back into the tree: \<open>Some n\<close> replaces what is at the path,
  \<open>None\<close> removes the entry.
\<close>

fun update_at :: "node \<Rightarrow> path \<Rightarrow> node option \<Rightarrow> node" where
  "update_at fs [] None = fs"
| "update_at fs [] (Some n) = n"
| "update_at (File sz stat_ok unlink_ok) (c # cs) x = File sz stat_ok unlink_ok"
| "update_at (Dir ls rm es) [c] None = Dir ls rm (filter (\<lambda>e. fst e \<noteq> c) es)"
| "update_at (Dir ls rm es) (c # cs) x =
     Dir ls rm (map (\<lambda>e. if fst e = c then (fst e, update_at (snd e) cs x) else e) es)"

text \<open>
  \<open>venv_path.rmdir()\<close> and, when it fails, \<open>shutil.rmtree(venv_path)\<close>. The
  result is what remains at \<open>venv_path\<close> (\<open>None\<close> when it is gone) and the state.
\<close>

definition delete_root :: "path \<Rightarrow> node \<Rightarrow> dstate \<Rightarrow> node option \<times> dstate" where
  "delete_root venv_path n st =
     (case rmdir_error venv_path n of
        None \<Rightarrow> (None, st)
      | Some e \<Rightarrow>
          (case rmtree venv_path n of
             None \<Rightarrow> (None, st)
           | Some (e2, n') \<Rightarrow>
               (Some n', add_error (root_error e2) st)))"

text \<open>
  The body of the outer \<open>try\<close> of \<open>safe_delete_venv\<close> on the directory \<open>n\<close> at
  \<open>venv_path\<close>: the exception that reached the outer handler, if any, what remains
  at \<open>venv_path\<close>, and the state.
\<close>

definition deletion ::
  "progress option \<Rightarrow> nat \<Rightarrow> path \<Rightarrow> node \<Rightarrow> exn option \<times> node option \<times> dstate" where
  "deletion cb total_size venv_path n =
     (case walk_delete cb total_size venv_path n \<lparr>bytes_removed = 0, errors = [], calls = []\<rparr> of
        (Some e, n1, st1) \<Rightarrow> (Some e, Some n1, st1)
      | (None, n1, st1) \<Rightarrow>
          (case delete_root venv_path n1 st1 of (r, st2) \<Rightarrow> (None, r, st2)))"

text \<open>The statements after the outer \<open>try\<close>.\<close>

definition final_result :: "dstate \<Rightarrow> bool \<times> string" where
  "final_result st =
     (if errors st \<noteq> [] then
        (if bytes_removed st > 0 then
           (True, ''Partially deleted ('' @ str_nat (length (errors st)) @ '' errors)'')
         else
           (False, join [CHR 0x0A] (take 3 (errors st)) @
              (if length (errors st) > 3
               then '' (and '' @ str_nat (length (errors st) - 3) @ '' more errors)''
               else [])))
      else (True, []))"

text \<open>
  \<open>safe_delete_venv\<close> on a path whose \<open>stat\<close> answers: the returned
  pair, the filesystem afterwards, and the state of the walk. The test
  \<open>not venv_path.exists() or not venv_path.is_dir()\<close> is then the case
  distinction on what is found at \<open>venv_path\<close> (lemma
  \<open>not_a_directory_iff\<close> below). The call on any path, with the test's own
  failure, is \<open>safe_delete_venv_call\<close> below.
\<close>

definition safe_delete_venv ::
  "node \<Rightarrow> path \<Rightarrow> progress option \<Rightarrow> (bool \<times> string) \<times> node \<times> dstate" where
  "safe_delete_venv fs venv_path progress_callback =
     (case lookup fs venv_path of
        None \<Rightarrow>
          ((False, ''Directory does not exist: '' @ str_path venv_path), fs,
           \<lparr>bytes_removed = 0, errors = [], calls = []\<rparr>)
      | Some (File sz stat_ok unlink_ok) \<Rightarrow>
          ((False, ''Directory does not exist: '' @ str_path venv_path), fs,
           \<lparr>bytes_removed = 0, errors = [], calls = []\<rparr>)
      | Some (Dir ls rm es) \<Rightarrow>
          (let total_size = walk_size (Dir ls rm es) in
           case deletion progress_callback total_size venv_path (Dir ls rm es) of
             (Some e, r, st) \<Rightarrow>
               ((False, ''Unexpected error during deletion: '' @ str_exn e),
                update_at fs venv_path r, st)
           | (None, r, st) \<Rightarrow> (final_result st, update_at fs venv_path r, st)))"

text \<open>
  The callback of \<open>delete_multiple_venvs\<close>, applied to \<open>venvs_deleted\<close>,
  \<open>total_venvs\<close> and the description.
\<close>

type_synonym batch_progress = "nat \<Rightarrow> nat \<Rightarrow> string \<Rightarrow> exn option"

text \<open>
  \<open>venv_progress\<close>, with the variables of the enclosing loop it reads as
  arguments. The f-string divides \<open>bytes_done\<close> by \<open>total\<close> (here
  \<open>total'\<close>) before the callback is called, and the division of two integers
  raises \<open>ZeroDivisionError\<close> when the divisor is \<open>0\<close>. \<open>percent\<close>
  stands for the digits of the floating-point value \<open>bytes_done/total*100\<close> under
  the format \<open>.0f\<close>; nothing below depends on them. Without a callback the
  f-string is never evaluated.
\<close>

definition venv_progress ::
  "(nat \<Rightarrow> nat \<Rightarrow> string) \<Rightarrow> batch_progress option \<Rightarrow> nat \<Rightarrow> nat \<Rightarrow> path \<Rightarrow> progress" where
  "venv_progress percent progress_callback venvs_deleted total_venvs venv_path bytes_done total' =
     (case progress_callback of
        None \<Rightarrow> None
      | Some f \<Rightarrow>
          if total' = 0 then Some ZeroDivisionError
          else f venvs_deleted total_venvs
                 (str_path venv_path @ '' ('' @ percent bytes_done total' @ ''%)''))"

text \<open>
  The loop of \<open>delete_multiple_venvs\<close> over the paths that are left, from the
  filesystem and the counters reached so far, on paths whose \<open>stat\<close> answers.
  The first call of the callback is outside every \<open>try\<close>: an exception there
  leaves the function. The loop on any paths is \<open>delete_loop_call\<close> below.
\<close>

fun delete_loop ::
  "(nat \<Rightarrow> nat \<Rightarrow> string) \<Rightarrow> batch_progress option \<Rightarrow> nat \<Rightarrow> path list \<Rightarrow> node
     \<Rightarrow> nat \<times> nat \<times> (path \<times> string) list
     \<Rightarrow> (exn + nat \<times> nat \<times> (path \<times> string) list) \<times> node" where
  "delete_loop percent progress_callback total_venvs [] fs acc = (Inr acc, fs)"
| "delete_loop percent progress_callback total_venvs (venv_path # rest) fs
     (venvs_deleted, bytes_freed, failures) =
     (case (case progress_callback of
              None \<Rightarrow> None
            | Some f \<Rightarrow> f venvs_deleted total_venvs (str_path venv_path)) of
        Some e \<Rightarrow> (Inl e, fs)
      | None \<Rightarrow>
          (let venv_size = size_at fs venv_path in
           case safe_delete_venv fs venv_path
                  (Some (venv_progress percent progress_callback venvs_deleted total_venvs
                           venv_path)) of
             ((success, error), fs', st) \<Rightarrow>
               if success then
                 delete_loop percent progress_callback total_venvs rest fs'
                   (venvs_deleted + 1, bytes_freed + venv_size, failures)
               else
                 delete_loop percent progress_callback total_venvs rest fs'
                   (venvs_deleted, bytes_freed, failures @ [(venv_path, error)])))"

definition delete_multiple_venvs ::
  "(nat \<Rightarrow> nat \<Rightarrow> string) \<Rightarrow> node \<Rightarrow> path list \<Rightarrow> batch_progress option
     \<Rightarrow> (exn + nat \<times> nat \<times> (path \<times> string) list) \<times> node" where
  "delete_multiple_venvs percent fs venv_paths progress_callback =
     delete_loop percent progress_callback (length venv_paths) venv_paths fs (0, 0, [])"

subsection \<open>Paths below directories that cannot be searched\<close>

text \<open>
  \<open>below d p\<close>: the directory \<open>d\<close> is a proper ancestor of the path
  \<open>p\<close>.
\<close>

fun below :: "path \<Rightarrow> path \<Rightarrow> bool" where
  "below [] (c # cs) = True"
| "below (a # as) (c # cs) = (a = c \<and> below as cs)"
| "below d [] = False"

text \<open>
  \<open>Path.stat\<close> on a path below a directory that cannot be searched fails with
  \<open>EACCES\<close>. \<open>locked\<close> lists these directories; they lie above the paths
  handed to the cleaner.
\<close>

definition stat_error :: "path list \<Rightarrow> path \<Rightarrow> exn option" where
  "stat_error locked p =
     (if list_ex (\<lambda>d. below d p) locked then Some (OSError EACCES p) else None)"

text \<open>
  \<open>Path.exists\<close> and \<open>Path.is_dir\<close> return \<open>False\<close> on the errors
  \<open>ENOENT\<close>, \<open>ENOTDIR\<close>, \<open>EBADF\<close> and \<open>ELOOP\<close> of
  \<open>stat\<close> and raise every other one again, \<open>EACCES\<close> among them.
\<close>

definition exists_call :: "path list \<Rightarrow> node \<Rightarrow> path \<Rightarrow> exn + bool" where
  "exists_call locked fs p =
     (case stat_error locked p of Some e \<Rightarrow> Inl e | None \<Rightarrow> Inr (exists fs p))"

definition is_dir_call :: "path list \<Rightarrow> node \<Rightarrow> path \<Rightarrow> exn + bool" where
  "is_dir_call locked fs p =
     (case stat_error locked p of Some e \<Rightarrow> Inl e | None \<Rightarrow> Inr (is_dir fs p))"

text \<open>
  \<open>safe_delete_venv\<close> as it is called. Its first statement,
  \<open>if not venv_path.exists() or not venv_path.is_dir()\<close>, stands before the
  outer \<open>try\<close>: an exception of \<open>exists\<close> or \<open>is_dir\<close> leaves the
  function. When both answer, the call goes on as \<open>safe_delete_venv\<close> above.
\<close>

definition safe_delete_venv_call ::
  "path list \<Rightarrow> node \<Rightarrow> path \<Rightarrow> progress option
     \<Rightarrow> exn + ((bool \<times> string) \<times> node \<times> dstate)" where
  "safe_delete_venv_call locked fs venv_path progress_callback =
     (case exists_call locked fs venv_path of
        Inl e \<Rightarrow> Inl e
      | Inr found \<Rightarrow>
          if \<not> found then Inr (safe_delete_venv fs venv_path progress_callback)
          else (case is_dir_call locked fs venv_path of
                  Inl e \<Rightarrow> Inl e
                | Inr d \<Rightarrow> Inr (safe_delete_venv fs venv_path progress_callback)))"

text \<open>
  The size walk of \<open>delete_multiple_venvs\<close>: \<open>os.walk\<close> passes over a
  directory it cannot list, so a path that cannot be reached counts \<open>0\<close>.
\<close>

definition size_at_call :: "path list \<Rightarrow> node \<Rightarrow> path \<Rightarrow> nat" where
  "size_at_call locked fs p =
     (case stat_error locked p of Some e \<Rightarrow> 0 | None \<Rightarrow> size_at fs p)"

text \<open>
  The loop of \<open>delete_multiple_venvs\<close> as it runs on any paths.
  \<open>safe_delete_venv\<close> is called outside every \<open>try\<close>: an exception it
  does not catch leaves \<open>delete_multiple_venvs\<close>, and the paths that are left are
  not visited.
\<close>

fun delete_loop_call ::
  "path list \<Rightarrow> (nat \<Rightarrow> nat \<Rightarrow> string) \<Rightarrow> batch_progress option \<Rightarrow> nat \<Rightarrow> path list \<Rightarrow> node
     \<Rightarrow> nat \<times> nat \<times> (path \<times> string) list
     \<Rightarrow> (exn + nat \<times> nat \<times> (path \<times> string) list) \<times> node" where
  "delete_loop_call locked percent progress_callback total_venvs [] fs acc = (Inr acc, fs)"
| "delete_loop_call locked percent progress_callback total_venvs (venv_path # rest) fs
     (venvs_deleted, bytes_freed, failures) =
     (case (case progress_callback of
              None \<Rightarrow> None
            | Some f \<Rightarrow> f venvs_deleted total_venvs (str_path venv_path)) of
        Some e \<Rightarrow> (Inl e, fs)
      | None \<Rightarrow>
          (let venv_size = size_at_call locked fs venv_path in
           case safe_delete_venv_call locked fs venv_path
                  (Some (venv_progress percent progress_callback venvs_deleted total_venvs
                           venv_path)) of
             Inl e \<Rightarrow> (Inl e, fs)
           | Inr ((success, error), fs', st) \<Rightarrow>
               if success then
                 delete_loop_call locked percent progress_callback total_venvs rest fs'
                   (venvs_deleted + 1, bytes_freed + venv_size, failures)
               else
                 delete_loop_call locked percent progress_callback total_venvs rest fs'
                   (venvs_deleted, bytes_freed, failures @ [(venv_path, error)])))"

definition delete_multiple_venvs_call ::
  "path list \<Rightarrow> (nat \<Rightarrow> nat \<Rightarrow> string) \<Rightarrow> node \<Rightarrow> path list \<Rightarrow> batch_progress option
     \<Rightarrow> (exn + nat \<times> nat \<times> (path \<times> string) list) \<times> node" where
  "delete_multiple_venvs_call locked percent fs venv_paths progress_callback =
     delete_loop_call locked percent progress_callback (length venv_paths) venv_paths fs (0, 0, [])"

text \<open>
  The invariant of the deletion walk on the calls made so far: the first arguments are
  in non-decreasing order and none is above the current \<open>bytes_removed\<close>.
\<close>

definition mono_calls :: "dstate \<Rightarrow> bool" where
  "mono_calls st \<longleftrightarrow>
     sorted (map fst (calls st)) \<and> (\<forall>b \<in> set (map fst (calls st)). b \<le> bytes_removed st)"

text \<open>
  A file the deletion walk can delete: \<open>stat\<close> and \<open>unlink\<close> succeed on it.
  \<open>deletable_files\<close> looks at the files of one directory, \<open>has_deletable_file\<close>
  at everything the walk reaches from a directory, that is through directories that can
  be listed.
\<close>

fun deletable_files :: "(string \<times> node) list \<Rightarrow> bool" where
  "deletable_files [] = False"
| "deletable_files ((fname, File sz stat_ok unlink_ok) # rest) =
     ((stat_ok \<and> unlink_ok) \<or> deletable_files rest)"
| "deletable_files ((d, Dir ls rm es) # rest) = deletable_files rest"

fun has_deletable_file :: "node \<Rightarrow> bool"
  and deletable_subdirs :: "(string \<times> node) list \<Rightarrow> bool" where
  "has_deletable_file (File sz stat_ok unlink_ok) = False"
| "has_deletable_file (Dir ls rm es) = (ls \<and> (deletable_files es \<or> deletable_subdirs es))"
| "deletable_subdirs [] = False"
| "deletable_subdirs ((fname, File sz stat_ok unlink_ok) # rest) = deletable_subdirs rest"
| "deletable_subdirs ((d, Dir ls rm es) # rest) =
     (has_deletable_file (Dir ls rm es) \<or> deletable_subdirs rest)"

text \<open>A callback that raises \<open>ZeroDivisionError\<close> whenever the total is \<open>0\<close>.\<close>

definition zde :: "progress \<Rightarrow> bool" where
  "zde cb \<longleftrightarrow> (\<forall>b. cb b 0 = Some ZeroDivisionError)"

text \<open>The number of files in a tree.\<close>

fun file_count :: "node \<Rightarrow> nat"
  and file_count_entries :: "(string \<times> node) list \<Rightarrow> nat" where
  "file_count (File sz stat_ok unlink_ok) = 1"
| "file_count (Dir ls rm es) = file_count_entries es"
| "file_count_entries [] = 0"
| "file_count_entries ((fname, File sz stat_ok unlink_ok) # rest) = 1 + file_count_entries rest"
| "file_count_entries ((d, Dir ls rm es) # rest) =
     file_count (Dir ls rm es) + file_count_entries rest"

text \<open>A well-formed tree: no directory lists a name twice.\<close>

fun distinct_names :: "node \<Rightarrow> bool"
  and distinct_names_entries :: "(string \<times> node) list \<Rightarrow> bool" where
  "distinct_names (File sz stat_ok unlink_ok) = True"
| "distinct_names (Dir ls rm es) = (distinct (map fst es) \<and> distinct_names_entries es)"
| "distinct_names_entries [] = True"
| "distinct_names_entries ((c, n) # rest) = (distinct_names n \<and> distinct_names_entries rest)"

section \<open>Example filesystems\<close>

text \<open>A project whose environments live under the hidden directory \<open>.tox\<close>.\<close>

definition fs_tox :: node where
  "fs_tox =
     Dir True True
      [(''proj'', Dir True True
         [(''.tox'', Dir True True
            [(''py39'', Dir True True [(''pyvenv.cfg'', File 10 True True)])])])]"

text \<open>An installation prefix with \<open>bin/python\<close> that holds environments of its own.\<close>

definition fs_conda :: node where
  "fs_conda =
     Dir True True
      [(''home'', Dir True True
         [(''miniconda3'', Dir True True
            [(''bin'', Dir True True [(''python'', File 20 True True)]),
             (''envs'', Dir True True
                [(''foo'', Dir True True
                   [(''bin'', Dir True True [(''python'', File 20 True True)])])])])])]"

text \<open>A project kept under \<open>/home/dev\<close>.\<close>

definition fs_dev :: node where
  "fs_dev =
     Dir True True
      [(''home'', Dir True True
         [(''dev'', Dir True True
            [(''proj'', Dir True True
               [(''requirements.txt'', File 5 True True),
                (''venv'', Dir True True [(''pyvenv.cfg'', File 10 True True)])])])])]"

text \<open>An environment with a library directory, next to an unrelated file.\<close>

definition fs_clean :: node where
  "fs_clean =
     Dir True True
      [(''w'', File 1 True True),
       (''v'', Dir True True
          [(''a'', File 10 True True),
           (''lib'', Dir True True [(''b'', File 20 True True)])])]"

text \<open>An environment with a file that cannot be unlinked.\<close>

definition fs_partial :: node where
  "fs_partial =
     Dir True True
      [(''v'', Dir True True [(''a'', File 10 True True), (''b'', File 5 True False)])]"

text \<open>An environment in which nothing can be deleted.\<close>

definition fs_locked :: node where
  "fs_locked =
     Dir True True
      [(''v'', Dir True True
          [(''a'', File 10 True False), (''b'', File 5 True False),
           (''c'', File 5 False True)])]"

text \<open>An environment that holds only empty files.\<close>

definition fs_zero :: node where
  "fs_zero =
     Dir True True
      [(''v'', Dir True True
          [(''lib'', Dir True True
             [(''__init__.py'', File 0 True True), (''x'', File 0 True True)])])]"

text \<open>
  An environment under \<open>/srv\<close>, which the theorems below take as a directory
  that cannot be searched, and one under \<open>/v\<close>.
\<close>

definition fs_srv :: node where
  "fs_srv =
     Dir True True
      [(''srv'', Dir True True
          [(''venv'', Dir True True [(''pyvenv.cfg'', File 10 True True)])]),
       (''v'', Dir True True [(''a'', File 10 True True)])]"

text \<open>
  Two batch callbacks: one that always returns, and one that returns on the plain
  descriptions \<open>/v\<close> and \<open>/q\<close> and raises on every other description.
\<close>

definition quiet :: batch_progress where
  "quiet d t s = None"

definition picky :: batch_progress where
  "picky d t s = (if s = ''/v'' \<or> s = ''/q'' then None else Some (OtherException ''no''))"

section \<open>Properties of the finder\<close>

lemma name_eq: "name p = (if p = [] then [] else last p)"
  by (cases p) simp_all

lemma name_snoc: "name (d @ [c]) = c"
  by (simp add: name_eq)



lemma iterdir_child: "iterdir fs d = Inr items \<Longrightarrow> item \<in> set items \<Longrightarrow> \<exists>c. item = d @ [c]"
  by (auto simp: iterdir_def split: option.splits node.splits if_splits)

lemma find_venvs_in_dir_unfold:
  assumes "name d \<notin> ex" "\<not> is_virtual_env fs d" "\<not> m \<le> 0"
  shows "find_venvs_in_dir fs d m ex =
           (case iterdir fs d of
              Inl e \<Rightarrow> []
            | Inr items \<Rightarrow>
                concat (map (\<lambda>item.
                  if descend_into fs item then find_venvs_in_dir fs item (m - 1) ex else [])
                  items))"
  using assms by (subst find_venvs_in_dir.simps) simp

lemma find_venvs_in_dir_below:
  "p \<in> set (find_venvs_in_dir fs d m ex) \<Longrightarrow>
     name d \<notin> ex \<and> (\<exists>rel. p = d @ rel \<and> set rel \<inter> ex = {})"
proof (induction fs d m ex arbitrary: p rule: find_venvs_in_dir.induct)
  case (1 fs directory max_depth exclude_dirs)
  note mem = "1.prems"
  show ?case
  proof (cases "name directory \<in> exclude_dirs")
    case True
    with mem show ?thesis by (subst (asm) find_venvs_in_dir.simps) simp
  next
    case nex: False
    show ?thesis
    proof (cases "is_virtual_env fs directory")
      case True
      with nex mem show ?thesis by (subst (asm) find_venvs_in_dir.simps) simp
    next
      case nv: False
      show ?thesis
      proof (cases "max_depth \<le> 0")
        case True
        with nex nv mem show ?thesis by (subst (asm) find_venvs_in_dir.simps) simp
      next
        case dp: False
        from mem[unfolded find_venvs_in_dir_unfold[OF nex nv dp]]
        obtain items item where
          it: "iterdir fs directory = Inr items" and
          im: "item \<in> set items" and
          di: "descend_into fs item" and
          pm: "p \<in> set (find_venvs_in_dir fs item (max_depth - 1) exclude_dirs)"
          by (cases "iterdir fs directory") (auto split: if_splits)
        from "1.IH"[OF nex nv dp it im di pm]
        obtain rel where r: "name item \<notin> exclude_dirs" "p = item @ rel"
            "set rel \<inter> exclude_dirs = {}"
          by blast
        from iterdir_child[OF it im] obtain c where c: "item = directory @ [c]" ..
        with r have "p = directory @ (c # rel)" "set (c # rel) \<inter> exclude_dirs = {}"
          by (simp_all add: name_snoc)
        with nex show ?thesis by blast
      qed
    qed
  qed
qed



lemma find_venvs_in_dir_excluded:
  "name d \<in> ex \<Longrightarrow> find_venvs_in_dir fs d m ex = []"
  by (subst find_venvs_in_dir.simps) simp

lemma find_venvs_in_dir_venv:
  "name d \<notin> ex \<Longrightarrow> is_virtual_env fs d \<Longrightarrow> find_venvs_in_dir fs d m ex = [d]"
  by (subst find_venvs_in_dir.simps) simp

lemma find_venvs_in_dir_depth:
  "name d \<notin> ex \<Longrightarrow> \<not> is_virtual_env fs d \<Longrightarrow> m \<le> 0 \<Longrightarrow>
     find_venvs_in_dir fs d m ex = []"
  by (subst find_venvs_in_dir.simps) simp

lemmas finder_eval =
  find_venvs_def system_dirs_def find_venvs_in_dir_excluded find_venvs_in_dir_venv
  find_venvs_in_dir_depth find_venvs_in_dir_unfold iterdir_def is_virtual_env_def is_dir_def
  exists_def VENV_IDENTIFIERS_def descend_into_def startswith_dot_def lower_def lower_char_def

text \<open>
  What the sequential search guarantees: every result is recognised as an environment,
  no directory between the start and a result is one, and on a well-formed tree no
  result is listed twice.
\<close>

lemma find_venvs_in_dir_found:
  "p \<in> set (find_venvs_in_dir fs d m ex) \<Longrightarrow>
     is_virtual_env fs p \<and>
     (\<forall>rel1 rel2. p = d @ rel1 @ rel2 \<and> rel2 \<noteq> [] \<longrightarrow> \<not> is_virtual_env fs (d @ rel1))"
proof (induction fs d m ex arbitrary: p rule: find_venvs_in_dir.induct)
  case (1 fs directory max_depth exclude_dirs)
  note mem = "1.prems"
  show ?case
  proof (cases "name directory \<in> exclude_dirs")
    case True
    with mem show ?thesis by (simp add: find_venvs_in_dir_excluded)
  next
    case nex: False
    show ?thesis
    proof (cases "is_virtual_env fs directory")
      case True
      with nex mem show ?thesis by (simp add: find_venvs_in_dir_venv)
    next
      case nv: False
      show ?thesis
      proof (cases "max_depth \<le> 0")
        case True
        with nex nv mem show ?thesis by (simp add: find_venvs_in_dir_depth)
      next
        case dp: False
        from mem[unfolded find_venvs_in_dir_unfold[OF nex nv dp]]
        obtain items item where
          it: "iterdir fs directory = Inr items" and
          im: "item \<in> set items" and
          di: "descend_into fs item" and
          pm: "p \<in> set (find_venvs_in_dir fs item (max_depth - 1) exclude_dirs)"
          by (cases "iterdir fs directory") (auto split: if_splits)
        note ih = "1.IH"[OF nex nv dp it im di pm]
        from iterdir_child[OF it im] obtain c where c: "item = directory @ [c]" ..
        from find_venvs_in_dir_below[OF pm] obtain rel where rel: "p = item @ rel" by blast
        have "\<not> is_virtual_env fs (directory @ rel1)"
          if eq: "p = directory @ rel1 @ rel2" and ne: "rel2 \<noteq> []" for rel1 rel2
        proof (cases rel1)
          case Nil
          with nv show ?thesis by simp
        next
          case (Cons c' r1)
          with eq rel c have "c' = c" "p = item @ r1 @ rel2" by simp_all
          with ih ne have "\<not> is_virtual_env fs (item @ r1)" by blast
          with c Cons \<open>c' = c\<close> show ?thesis by simp
        qed
        with ih show ?thesis by blast
      qed
    qed
  qed
qed

lemma distinct_names_entry:
  "distinct_names_entries es \<Longrightarrow> (c, n) \<in> set es \<Longrightarrow> distinct_names n"
  by (induction es) auto

lemma lookup_distinct_names:
  "distinct_names fs \<Longrightarrow> lookup fs p = Some n \<Longrightarrow> distinct_names n"
proof (induction p arbitrary: fs)
  case Nil
  then show ?case by simp
next
  case (Cons c cs)
  show ?case
  proof (cases fs)
    case (File sz so uo)
    with Cons.prems show ?thesis by simp
  next
    case (Dir ls rm es)
    with Cons.prems obtain m where m: "map_of es c = Some m" "lookup m cs = Some n"
      by (auto split: option.splits)
    from m(1) have "(c, m) \<in> set es" by (rule map_of_SomeD)
    with Cons.prems(1) Dir have "distinct_names m" by (auto dest: distinct_names_entry)
    from Cons.IH[OF this m(2)] show ?thesis .
  qed
qed

lemma iterdir_distinct:
  assumes "distinct_names fs" "iterdir fs d = Inr items"
  shows "distinct items"
proof -
  from assms(2) obtain ls rm es where l: "lookup fs d = Some (Dir ls rm es)"
    and i: "items = map (\<lambda>e. d @ [fst e]) es"
    by (auto simp: iterdir_def split: option.splits node.splits if_splits)
  from lookup_distinct_names[OF assms(1) l] have "distinct (map fst es)" by simp
  then have "distinct (map ((\<lambda>c. d @ [c]) \<circ> fst) es)"
    unfolding map_map[symmetric] by (simp add: distinct_map inj_on_def)
  with i show ?thesis by (simp add: comp_def)
qed

lemma distinct_concat_map:
  assumes "distinct xs"
    and "\<And>x. x \<in> set xs \<Longrightarrow> distinct (g x)"
    and "\<And>x y. x \<in> set xs \<Longrightarrow> y \<in> set xs \<Longrightarrow> x \<noteq> y \<Longrightarrow> set (g x) \<inter> set (g y) = {}"
  shows "distinct (concat (map g xs))"
  using assms
proof (induction xs)
  case Nil
  then show ?case by simp
next
  case (Cons x xs)
  have a: "distinct (g x)" by (rule Cons.prems(2)) simp
  have b: "distinct (concat (map g xs))"
    by (rule Cons.IH) (use Cons.prems in auto)
  have c: "set (g x) \<inter> set (g y) = {}" if "y \<in> set xs" for y
    using Cons.prems(1) that by (intro Cons.prems(3)) auto
  from a b c show ?case by auto
qed

lemma find_venvs_in_dir_distinct:
  "distinct_names fs \<Longrightarrow> distinct (find_venvs_in_dir fs d m ex)"
proof (induction fs d m ex rule: find_venvs_in_dir.induct)
  case (1 fs directory max_depth exclude_dirs)
  show ?case
  proof (cases "name directory \<in> exclude_dirs")
    case True
    then show ?thesis by (simp add: find_venvs_in_dir_excluded)
  next
    case nex: False
    show ?thesis
    proof (cases "is_virtual_env fs directory")
      case True
      with nex show ?thesis by (simp add: find_venvs_in_dir_venv)
    next
      case nv: False
      show ?thesis
      proof (cases "max_depth \<le> 0")
        case True
        with nex nv show ?thesis by (simp add: find_venvs_in_dir_depth)
      next
        case dp: False
        show ?thesis
        proof (cases "iterdir fs directory")
          case (Inl e)
          with nex nv dp show ?thesis by (simp add: find_venvs_in_dir_unfold)
        next
          case (Inr items)
          let ?g = "\<lambda>item. if descend_into fs item
                  then find_venvs_in_dir fs item (max_depth - 1) exclude_dirs else []"
          have d: "distinct items" using "1.prems" Inr by (rule iterdir_distinct)
          have e: "distinct (?g x)" if "x \<in> set items" for x
            using "1.IH"[OF nex nv dp Inr that _ "1.prems"] by simp
          have f: "set (?g x) \<inter> set (?g y) = {}"
            if x: "x \<in> set items" and y: "y \<in> set items" and ne: "x \<noteq> y" for x y
          proof -
            from iterdir_child[OF Inr x] obtain c where c: "x = directory @ [c]" ..
            from iterdir_child[OF Inr y] obtain c' where c': "y = directory @ [c']" ..
            have False if "p \<in> set (?g x)" "p \<in> set (?g y)" for p
            proof -
              from that(1) have "p \<in> set (find_venvs_in_dir fs x (max_depth - 1) exclude_dirs)"
                by (auto split: if_splits)
              from find_venvs_in_dir_below[OF this] obtain r where r: "p = x @ r" by blast
              from that(2) have "p \<in> set (find_venvs_in_dir fs y (max_depth - 1) exclude_dirs)"
                by (auto split: if_splits)
              from find_venvs_in_dir_below[OF this] obtain r' where r': "p = y @ r'" by blast
              from r r' c c' have "c = c'" by simp
              with c c' ne show False by simp
            qed
            then show ?thesis by blast
          qed
          from distinct_concat_map[of items ?g, OF d e f] Inr nex nv dp show ?thesis
            by (simp add: find_venvs_in_dir_unfold)
        qed
      qed
    qed
  qed
qed

text \<open>
  Where the two modes agree: the start directory is neither excluded nor an environment,
  the depth limit is positive, and no directory directly below the start is a hidden one
  the sequential search would skip. Then both return the same list.
\<close>

lemma parallel_branches:
  assumes "\<And>item. item \<in> set items \<Longrightarrow> descend_into fs item = is_dir fs item"
  shows "concat (map (\<lambda>item. if descend_into fs item
                               then find_venvs_in_dir fs item m ex else []) items) =
         concat (map (\<lambda>d. find_venvs_in_dir fs d m ex)
                   (filter (\<lambda>d. is_dir fs d \<and> name d \<notin> ex) items))"
  using assms by (induction items) (auto simp: find_venvs_in_dir_excluded)

lemma find_venvs_modes_agree:
  assumes "name start_path \<notin> set exclude_dirs \<union> system_dirs sys_platform"
    and "\<not> is_virtual_env fs start_path"
    and "0 < max_depth"
    and "\<And>items item. iterdir fs start_path = Inr items \<Longrightarrow> item \<in> set items \<Longrightarrow>
           descend_into fs item = is_dir fs item"
  shows "find_venvs sys_platform fs start_path max_depth exclude_dirs True =
         find_venvs sys_platform fs start_path max_depth exclude_dirs False"
proof (cases "iterdir fs start_path")
  case (Inl e)
  with assms(1-3) show ?thesis
    by (simp add: find_venvs_def find_venvs_in_dir_unfold)
next
  case (Inr items)
  from parallel_branches[of items fs "max_depth - 1" "set exclude_dirs \<union> system_dirs sys_platform"]
    assms(4)[OF Inr]
  have "concat (map (\<lambda>item. if descend_into fs item
            then find_venvs_in_dir fs item (max_depth - 1) (set exclude_dirs \<union> system_dirs sys_platform)
            else []) items) =
        concat (map (\<lambda>d. find_venvs_in_dir fs d (max_depth - 1) (set exclude_dirs \<union> system_dirs sys_platform))
            (filter (\<lambda>d. is_dir fs d \<and> name d \<notin> set exclude_dirs \<union> system_dirs sys_platform) items))"
    by blast
  with Inr assms(1-3) show ?thesis
    by (simp add: find_venvs_def find_venvs_in_dir_unfold)
qed

text \<open>
  C6. \<open>is_virtual_env d\<close> holds exactly when \<open>d\<close> is a directory and one of the
  five marker paths \<open>pyvenv.cfg\<close>, \<open>bin/activate\<close>, \<open>Scripts/activate\<close>,
  \<open>bin/python\<close>, \<open>Scripts/python.exe\<close> exists beneath it. Only these five
  paths are looked up; nothing else of the tree is read.
\<close>

theorem is_virtual_env_iff:
  "is_virtual_env fs d \<longleftrightarrow>
     is_dir fs d \<and>
       (exists fs (d @ [''pyvenv.cfg'']) \<or> exists fs (d @ [''bin'', ''activate'']) \<or>
        exists fs (d @ [''Scripts'', ''activate'']) \<or> exists fs (d @ [''bin'', ''python'']) \<or>
        exists fs (d @ [''Scripts'', ''python.exe'']))"
  by (simp add: is_virtual_env_def VENV_IDENTIFIERS_def)

theorem is_virtual_env_iff_witness:
  "is_virtual_env fs_conda [''home'', ''miniconda3'']
   \<and> is_dir fs_conda [''home'', ''miniconda3'']
   \<and> exists fs_conda ([''home'', ''miniconda3''] @ [''bin'', ''python''])
   \<and> \<not> is_virtual_env fs_conda [''home'']"
proof -
  have d: "is_dir fs_conda [''home'', ''miniconda3'']"
    by (simp add: is_dir_def fs_conda_def)
  have e: "exists fs_conda ([''home'', ''miniconda3''] @ [''bin'', ''python''])"
    by (simp add: exists_def fs_conda_def)
  from d e have v: "is_virtual_env fs_conda [''home'', ''miniconda3'']"
    by (simp only: is_virtual_env_iff [of fs_conda "[''home'', ''miniconda3'']"] simp_thms)
  have n: "\<not> is_virtual_env fs_conda [''home'']"
    unfolding is_virtual_env_iff [of fs_conda "[''home'']"]
    by (simp add: exists_def fs_conda_def)
  from v d e n show ?thesis by blast
qed



text \<open>
  C1. Parallel and sequential search differ on the same snapshot. Under \<open>/proj\<close> the
  only environment is \<open>/proj/.tox/py39\<close>. The sequential search skips the hidden
  directory \<open>.tox\<close>; the parallel search takes every directory below the start as a
  top-level task, hidden or not, and finds the environment.
\<close>

theorem find_venvs_parallel_differs:
  "find_venvs ''linux'' fs_tox [''proj''] 5 [] True = [[''proj'', ''.tox'', ''py39'']]
   \<and> find_venvs ''linux'' fs_tox [''proj''] 5 [] False = []"
  by (simp add: finder_eval fs_tox_def)

text \<open>
  C3. When the start directory is itself recognised as an environment, the parallel
  search does not test it and returns a path strictly inside it; the sequential search
  returns the start directory alone.
\<close>

theorem find_venvs_parallel_inside_env:
  "is_virtual_env fs_conda [''home'', ''miniconda3'']
   \<and> find_venvs ''linux'' fs_conda [''home'', ''miniconda3''] 5 [] True =
        [[''home'', ''miniconda3'', ''envs'', ''foo'']]
   \<and> find_venvs ''linux'' fs_conda [''home'', ''miniconda3''] 5 [] False =
        [[''home'', ''miniconda3'']]"
  by (simp add: finder_eval fs_conda_def)

text \<open>
  C5, as stated, fails: a start directory below \<open>/home/dev\<close> gives results whose
  path has the component \<open>dev\<close>, an excluded name on this platform, in both modes.
\<close>

theorem find_venvs_excluded_ancestor:
  "find_venvs ''linux'' fs_dev [''home'', ''dev'', ''proj''] 5 [] False =
        [[''home'', ''dev'', ''proj'', ''venv'']]
   \<and> find_venvs ''linux'' fs_dev [''home'', ''dev'', ''proj''] 5 [] True =
        [[''home'', ''dev'', ''proj'', ''venv'']]
   \<and> ''dev'' \<in> system_dirs ''linux''
   \<and> ''dev'' \<in> set [''home'', ''dev'', ''proj'', ''venv'']"
  by (simp add: finder_eval fs_dev_def)

text \<open>
  C5, amended. Every returned path lies at or below the start directory, and no component
  below the start directory is an excluded name (supplied by the caller or a platform
  default), in both modes. The sequential search also tests the start directory's own
  name.
\<close>

theorem find_venvs_excluded_below_start:
  assumes "p \<in> set (find_venvs sys_platform fs start_path max_depth exclude_dirs parallel)"
    and "E \<in> set exclude_dirs \<union> system_dirs sys_platform"
  shows "\<exists>rel. p = start_path @ rel \<and> E \<notin> set rel \<and>
           (\<not> parallel \<longrightarrow> name start_path \<noteq> E)"
proof (cases parallel)
  case False
  with assms(1) have "p \<in> set (find_venvs_in_dir fs start_path max_depth
      (set exclude_dirs \<union> system_dirs sys_platform))"
    by (simp add: find_venvs_def)
  from find_venvs_in_dir_below[OF this] assms(2) False show ?thesis by blast
next
  case True
  with assms(1) obtain items d where
    it: "iterdir fs start_path = Inr items" and d: "d \<in> set items"
      and pm: "p \<in> set (find_venvs_in_dir fs d (max_depth - 1)
      (set exclude_dirs \<union> system_dirs sys_platform))"
    by (cases "iterdir fs start_path") (auto simp: find_venvs_def)
  from iterdir_child[OF it d] obtain c where c: "d = start_path @ [c]" ..
  from find_venvs_in_dir_below[OF pm] obtain rel where
    r: "name d \<notin> set exclude_dirs \<union> system_dirs sys_platform" "p = d @ rel"
       "set rel \<inter> (set exclude_dirs \<union> system_dirs sys_platform) = {}"
    by blast
  with c assms(2) have "p = start_path @ (c # rel)" "E \<notin> set (c # rel)"
    by (auto simp: name_snoc)
  with True show ?thesis by blast
qed

theorem find_venvs_excluded_below_start_witness:
  "[''home'', ''dev'', ''proj'', ''venv'']
      \<in> set (find_venvs ''linux'' fs_dev [''home'', ''dev'', ''proj''] 5 [''node_modules''] False)
   \<and> ''dev'' \<in> set [''node_modules''] \<union> system_dirs ''linux''
   \<and> (\<exists>rel. [''home'', ''dev'', ''proj'', ''venv''] = [''home'', ''dev'', ''proj''] @ rel
          \<and> ''dev'' \<notin> set rel
          \<and> (\<not> False \<longrightarrow> name [''home'', ''dev'', ''proj''] \<noteq> ''dev''))"
proof -
  have h1: "[''home'', ''dev'', ''proj'', ''venv'']
      \<in> set (find_venvs ''linux'' fs_dev [''home'', ''dev'', ''proj''] 5 [''node_modules''] False)"
    by (simp add: finder_eval fs_dev_def)
  have h2: "''dev'' \<in> set [''node_modules''] \<union> system_dirs ''linux''"
    by (simp add: system_dirs_def)
  from find_venvs_excluded_below_start[OF h1 h2] h1 h2 show ?thesis by blast
qed

section \<open>Properties of the cleaner\<close>

lemma not_a_directory_iff:
  "(\<not> exists fs p \<or> \<not> is_dir fs p) \<longleftrightarrow> (\<forall>ls rm es. lookup fs p \<noteq> Some (Dir ls rm es))"
  by (auto simp: exists_def is_dir_def split: option.splits node.splits)

lemma add_error_fields [simp]:
  "calls (add_error msg st) = calls st"
  "bytes_removed (add_error msg st) = bytes_removed st"
  "errors (add_error msg st) = errors st @ [msg]"
  by (simp_all add: add_error_def)

lemma mono_calls_add_error [simp]: "mono_calls (add_error msg st) = mono_calls st"
  by (simp add: mono_calls_def)

lemma keep_eq: "keep e r = (x, es', st') \<longleftrightarrow> (\<exists>es. r = (x, es, st') \<and> es' = e # es)"
  by (cases r) auto

lemma mono_calls_step:
  assumes "mono_calls st"
  shows "mono_calls (st\<lparr>bytes_removed := bytes_removed st + sz\<rparr>)"
    and "mono_calls (st\<lparr>bytes_removed := bytes_removed st + sz,
            calls := calls st @ [(bytes_removed st + sz, t)]\<rparr>)"
  using assms by (auto simp: mono_calls_def sorted_append intro: trans_le_add1)

lemma delete_file_mono:
  "mono_calls st \<Longrightarrow> delete_file cb t fp sz so uo st = (x, rmd, st') \<Longrightarrow> mono_calls st'"
  by (auto simp: delete_file_def Let_def mono_calls_step
      split: if_splits option.splits)

lemma delete_files_mono:
  "mono_calls st \<Longrightarrow> delete_files cb t r es st = (x, es', st') \<Longrightarrow> mono_calls st'"
proof (induction cb t r es st arbitrary: x es' st' rule: delete_files.induct)
  case (1 cb total_size root st)
  then show ?case by simp
next
  case (2 cb total_size root d ls rm es rest st)
  then show ?case by (auto simp: keep_eq)
next
  case (3 cb total_size root fname sz stat_ok unlink_ok rest st)
  obtain y rmd st1 where
    df: "delete_file cb total_size (root @ [fname]) sz stat_ok unlink_ok st = (y, rmd, st1)"
    by (cases "delete_file cb total_size (root @ [fname]) sz stat_ok unlink_ok st") auto
  from delete_file_mono[OF "3.prems"(1) df] have m1: "mono_calls st1" .
  show ?case
  proof (cases y)
    case (Some e)
    with df "3.prems"(2) m1 show ?thesis by auto
  next
    case None
    show ?thesis
    proof (cases rmd)
      case True
      from "3.IH"(1)[OF df[symmetric] None refl True m1] "3.prems"(2) df None True
      show ?thesis by simp
    next
      case False
      from "3.IH"(2)[OF df[symmetric] None refl False m1] "3.prems"(2) df None False
      show ?thesis by (auto simp: keep_eq)
    qed
  qed
qed

lemma remove_dirs_fields:
  "remove_dirs r es st = (es', st') \<Longrightarrow>
     calls st' = calls st \<and> bytes_removed st' = bytes_removed st"
proof (induction r es st arbitrary: es' st' rule: remove_dirs.induct)
  case (1 root st)
  then show ?case by simp
next
  case (2 root fname sz stat_ok unlink_ok rest st)
  obtain es1 st1 where r: "remove_dirs root rest st = (es1, st1)"
    by (cases "remove_dirs root rest st") auto
  with "2.prems" have "st' = st1" by simp
  with "2.IH"[OF r] show ?case by simp
next
  case (3 root d ls rm es rest st)
  show ?case
  proof (cases "rmdir_error (root @ [d]) (Dir ls rm es)")
    case None
    with "3.prems" "3.IH"(1)[OF None] show ?thesis by simp
  next
    case (Some e)
    obtain es1 st1 where
      r: "remove_dirs root rest (add_error (dir_error (root @ [d]) e) st) = (es1, st1)"
      by (cases "remove_dirs root rest (add_error (dir_error (root @ [d]) e) st)") auto
    with "3.prems" Some have "st' = st1" by simp
    with "3.IH"(2)[OF Some r] show ?thesis by simp
  qed
qed

lemma remove_dirs_mono:
  "mono_calls st \<Longrightarrow> remove_dirs r es st = (es', st') \<Longrightarrow> mono_calls st'"
  by (drule remove_dirs_fields) (simp add: mono_calls_def)

lemma walk_mono:
  "mono_calls st \<Longrightarrow> walk_delete cb t r n st = (x, n', st') \<Longrightarrow> mono_calls st'"
  "mono_calls st \<Longrightarrow> walk_subdirs cb t r es st = (x, es', st') \<Longrightarrow> mono_calls st'"
proof (induction cb t r n st and cb t r es st arbitrary: x n' st' and x es' st'
    rule: walk_delete_walk_subdirs.induct)
  case (1 cb total_size root sz stat_ok unlink_ok st)
  then show ?case by simp
next
  case (2 cb total_size root ls rm es st)
  show ?case
  proof (cases ls)
    case False
    with "2.prems" show ?thesis by simp
  next
    case True
    obtain y es1 st1 where ws: "walk_subdirs cb total_size root es st = (y, es1, st1)"
      by (cases "walk_subdirs cb total_size root es st") auto
    have m1: "mono_calls st1" using "2.IH" True "2.prems"(1) ws by simp
    obtain z es2 st2 where df: "delete_files cb total_size root es1 st1 = (z, es2, st2)"
      by (cases "delete_files cb total_size root es1 st1") auto
    from delete_files_mono[OF m1 df] have m2: "mono_calls st2" .
    obtain es3 st3 where rd: "remove_dirs root es2 st2 = (es3, st3)"
      by (cases "remove_dirs root es2 st2") auto
    from remove_dirs_mono[OF m2 rd] have m3: "mono_calls st3" .
    from "2.prems"(2) True ws df rd m1 m2 m3 show ?thesis
      by (auto split: option.splits)
  qed
next
  case (3 cb total_size root st)
  then show ?case by simp
next
  case (4 cb total_size root fname sz stat_ok unlink_ok rest st)
  then show ?case by (auto simp: keep_eq)
next
  case (5 cb total_size root d ls rm es rest st)
  obtain y n1 st1 where wd: "walk_delete cb total_size (root @ [d]) (Dir ls rm es) st = (y, n1, st1)"
    by (cases "walk_delete cb total_size (root @ [d]) (Dir ls rm es) st") auto
  from "5.IH"(1)[OF "5.prems"(1) wd] have m1: "mono_calls st1" .
  show ?case
  proof (cases y)
    case (Some e)
    with wd "5.prems"(2) m1 show ?thesis by simp
  next
    case None
    with "5.IH"(2)[OF wd[symmetric] None refl m1] wd "5.prems"(2) show ?thesis
      by (auto simp: keep_eq)
  qed
qed

lemma delete_root_fields:
  "delete_root p n st = (r, st') \<Longrightarrow>
     calls st' = calls st \<and> bytes_removed st' = bytes_removed st"
  by (auto simp: delete_root_def split: option.splits prod.splits)

lemma deletion_mono: "deletion cb t p n = (x, r, st) \<Longrightarrow> mono_calls st"
proof -
  assume d: "deletion cb t p n = (x, r, st)"
  let ?st0 = "\<lparr>bytes_removed = 0, errors = [], calls = []\<rparr>"
  have m0: "mono_calls ?st0" by (simp add: mono_calls_def)
  obtain y n1 st1 where w: "walk_delete cb t p n ?st0 = (y, n1, st1)"
    by (cases "walk_delete cb t p n ?st0") auto
  from walk_mono(1)[OF m0 w] have m1: "mono_calls st1" .
  show ?thesis
  proof (cases y)
    case (Some e)
    with d w m1 show ?thesis by (simp add: deletion_def)
  next
    case None
    obtain r2 st2 where dr: "delete_root p n1 st1 = (r2, st2)"
      by (cases "delete_root p n1 st1") auto
    from delete_root_fields[OF dr] m1 have "mono_calls st2" by (simp add: mono_calls_def)
    with d w None dr show ?thesis by (simp add: deletion_def)
  qed
qed

lemma str_nat_digit: "n < 10 \<Longrightarrow> str_nat n = [digit n]"
  by (subst str_nat.simps) simp

lemma map_of_update_entries:
  "map_of (map (\<lambda>e. if fst e = c then (fst e, f (snd e)) else e) es) c =
     map_option f (map_of es c)"
  by (induction es) auto

lemma lookup_removed: "p \<noteq> [] \<Longrightarrow> lookup (update_at fs p None) p = None"
proof (induction p arbitrary: fs)
  case Nil
  then show ?case by simp
next
  case (Cons c cs)
  show ?case
  proof (cases fs)
    case (File sz so uo)
    then show ?thesis by simp
  next
    case (Dir ls rm es)
    show ?thesis
    proof (cases cs)
      case Nil
      have "map_of (filter (\<lambda>e. fst e \<noteq> c) es) c = None"
        by (auto simp: map_of_eq_None_iff)
      with Dir Nil show ?thesis by simp
    next
      case (Cons c' cs')
      then have ne: "cs \<noteq> []" by simp
      have u: "update_at (Dir ls rm es) (c # cs) None =
          Dir ls rm (map (\<lambda>e. if fst e = c then (fst e, update_at (snd e) cs None) else e) es)"
        using Cons by simp
      show ?thesis
        unfolding Dir u
        by (cases "map_of es c")
           (simp_all add: map_of_update_entries[where f="\<lambda>n. update_at n cs None"]
              Cons.IH[OF ne])
    qed
  qed
qed

lemma rmtree_root: "rmtree [] n \<noteq> None"
  by (cases n) (auto simp: rmdir_error_def split: option.splits)

lemma delete_root_gone: "delete_root p n st = (None, st') \<Longrightarrow> p \<noteq> []"
  using rmtree_root[of n]
  by (auto simp: delete_root_def rmdir_error_def split: option.splits if_splits)

lemma delete_root_left: "delete_root p n st = (Some n', st') \<Longrightarrow> errors st' \<noteq> []"
  by (auto simp: delete_root_def add_error_def split: option.splits)

lemma final_result_clean: "final_result st = (True, []) \<Longrightarrow> errors st = []"
  by (auto simp: final_result_def split: if_splits)

lemma safe_delete_venv_clean:
  assumes "fst (safe_delete_venv fs D cb) = (True, [])"
  shows "\<not> exists (fst (snd (safe_delete_venv fs D cb))) D"
proof -
  from assms obtain ls rm es where l: "lookup fs D = Some (Dir ls rm es)"
    by (auto simp: safe_delete_venv_def split: option.splits node.splits)
  obtain x r st where d: "deletion cb (walk_size (Dir ls rm es)) D (Dir ls rm es) = (x, r, st)"
    by (cases "deletion cb (walk_size (Dir ls rm es)) D (Dir ls rm es)") auto
  from assms l d have x: "x = None" and fr: "final_result st = (True, [])"
    by (cases x; simp add: safe_delete_venv_def del: walk_size.simps)+
  from final_result_clean[OF fr] have e: "errors st = []" .
  let ?st0 = "\<lparr>bytes_removed = 0, errors = [], calls = []\<rparr>"
  obtain y n1 st1 where w: "walk_delete cb (walk_size (Dir ls rm es)) D (Dir ls rm es) ?st0 = (y, n1, st1)"
    by (cases "walk_delete cb (walk_size (Dir ls rm es)) D (Dir ls rm es) ?st0") auto
  from d x w have y: "y = None" and dr: "delete_root D n1 st1 = (r, st)"
    by (cases y; auto simp: deletion_def simp del: walk_size.simps walk_delete.simps split: prod.splits)+
  from dr e delete_root_left have r: "r = None" by (cases r) auto
  with dr delete_root_gone have ne: "D \<noteq> []" by blast
  from l d x r have "fst (snd (safe_delete_venv fs D cb)) = update_at fs D None"
    by (simp add: safe_delete_venv_def del: walk_size.simps)
  with lookup_removed[OF ne] show ?thesis by (simp add: exists_def)
qed

lemma delete_loop_count:
  "delete_loop percent pc tv paths fs (vd, bf, fl) = (Inr (vd', bf', fl'), fs') \<Longrightarrow>
     vd' + length fl' = vd + length fl + length paths"
proof (induction paths arbitrary: fs vd bf fl)
  case Nil
  then show ?case by simp
next
  case (Cons p ps)
  from Cons.prems have direct: "(case pc of None \<Rightarrow> None | Some f \<Rightarrow> f vd tv (str_path p)) = None"
    by (auto split: option.splits)
  obtain ok err fs1 st where
    s: "safe_delete_venv fs p (Some (venv_progress percent pc vd tv p)) = ((ok, err), fs1, st)"
    by (cases "safe_delete_venv fs p (Some (venv_progress percent pc vd tv p))") auto
  show ?case
  proof (cases ok)
    case True
    with Cons.prems direct s
    have "delete_loop percent pc tv ps fs1 (vd + 1, bf + size_at fs p, fl) = (Inr (vd', bf', fl'), fs')"
      by simp
    from Cons.IH[OF this] show ?thesis by simp
  next
    case False
    with Cons.prems direct s
    have "delete_loop percent pc tv ps fs1 (vd, bf, fl @ [(p, err)]) = (Inr (vd', bf', fl'), fs')"
      by simp
    from Cons.IH[OF this] show ?thesis by simp
  qed
qed

lemma delete_loop_returns:
  assumes "\<And>f p d. pc = Some f \<Longrightarrow> p \<in> set paths \<Longrightarrow> f d tv (str_path p) = None"
  shows "\<exists>r fs'. delete_loop percent pc tv paths fs (vd, bf, fl) = (Inr r, fs')"
  using assms
proof (induction paths arbitrary: fs vd bf fl)
  case Nil
  then show ?case by simp
next
  case (Cons p ps)
  have direct: "(case pc of None \<Rightarrow> None | Some f \<Rightarrow> f vd tv (str_path p)) = None"
    using Cons.prems[of _ p vd] by (cases pc) auto
  obtain ok err fs1 st where
    s: "safe_delete_venv fs p (Some (venv_progress percent pc vd tv p)) = ((ok, err), fs1, st)"
    by (cases "safe_delete_venv fs p (Some (venv_progress percent pc vd tv p))") auto
  have ih: "\<And>fs vd bf fl. \<exists>r fs'. delete_loop percent pc tv ps fs (vd, bf, fl) = (Inr r, fs')"
    by (rule Cons.IH) (simp add: Cons.prems)
  show ?case
    using direct s ih[of fs1 "vd + 1" "bf + size_at fs p" fl] ih[of fs1 vd bf "fl @ [(p, err)]"]
    by (cases ok) simp_all
qed

lemma delete_file_zde:
  assumes "zde cb" "delete_file (Some cb) 0 fp sz so uo st = (x, rmd, st')"
  shows "(x = None \<or> x = Some ZeroDivisionError) \<and> (so \<and> uo \<longrightarrow> x = Some ZeroDivisionError)"
  using assms by (auto simp: delete_file_def zde_def Let_def split: if_splits)

lemma delete_files_zde:
  "zde cb \<Longrightarrow> delete_files (Some cb) 0 r es st = (x, es', st') \<Longrightarrow>
     (x = None \<or> x = Some ZeroDivisionError) \<and> (deletable_files es \<longrightarrow> x = Some ZeroDivisionError)"
proof (induction "Some cb" "0::nat" r es st arbitrary: x es' st' rule: delete_files.induct)
  case (1 root st)
  then show ?case by simp
next
  case (2 root d ls rm es rest st)
  then show ?case by (auto simp: keep_eq)
next
  case (3 root fname sz stat_ok unlink_ok rest st)
  obtain y rmd st1 where
    df: "delete_file (Some cb) 0 (root @ [fname]) sz stat_ok unlink_ok st = (y, rmd, st1)"
    by (cases "delete_file (Some cb) 0 (root @ [fname]) sz stat_ok unlink_ok st") auto
  note z = delete_file_zde[OF "3.prems"(1) df]
  show ?case
  proof (cases y)
    case (Some e)
    with df "3.prems"(2) z show ?thesis by auto
  next
    case None
    with z have nd: "\<not> (stat_ok \<and> unlink_ok)" by auto
    show ?thesis
    proof (cases rmd)
      case True
      from "3.hyps"(1)[OF df[symmetric] None refl True "3.prems"(1)] "3.prems"(2) df None True nd
      show ?thesis by auto
    next
      case False
      from "3.hyps"(2)[OF df[symmetric] None refl False "3.prems"(1)] "3.prems"(2) df None False nd
      show ?thesis by (auto simp: keep_eq)
    qed
  qed
qed

lemma walk_delete_Dir:
  "walk_delete cb t r (Dir ls rm es) st = (x, n', st') \<Longrightarrow> \<exists>es'. n' = Dir ls rm es'"
  by (auto split: if_splits prod.splits option.splits)

lemma walk_zde:
  "zde cb \<Longrightarrow> walk_delete (Some cb) 0 r n st = (x, n', st') \<Longrightarrow>
     (x = None \<or> x = Some ZeroDivisionError) \<and> (has_deletable_file n \<longrightarrow> x = Some ZeroDivisionError)"
  "zde cb \<Longrightarrow> walk_subdirs (Some cb) 0 r es st = (x, es', st') \<Longrightarrow>
     (x = None \<or> x = Some ZeroDivisionError) \<and> (deletable_subdirs es \<longrightarrow> x = Some ZeroDivisionError)
     \<and> (x = None \<longrightarrow> deletable_files es' = deletable_files es)"
proof (induction "Some cb" "0::nat" r n st and "Some cb" "0::nat" r es st
    arbitrary: x n' st' and x es' st' rule: walk_delete_walk_subdirs.induct)
  case (1 root sz stat_ok unlink_ok st)
  then show ?case by auto
next
  case (2 root ls rm es st)
  show ?case
  proof (cases ls)
    case False
    with "2.prems" show ?thesis by auto
  next
    case True
    obtain y es1 st1 where ws: "walk_subdirs (Some cb) 0 root es st = (y, es1, st1)"
      by (cases "walk_subdirs (Some cb) 0 root es st") auto
    from "2.hyps" True "2.prems"(1) ws
    have a: "(y = None \<or> y = Some ZeroDivisionError)"
      and b: "deletable_subdirs es \<longrightarrow> y = Some ZeroDivisionError"
      and c: "y = None \<longrightarrow> deletable_files es1 = deletable_files es"
      by simp_all
    show ?thesis
    proof (cases y)
      case (Some e)
      with a "2.prems"(2) True ws show ?thesis by simp
    next
      case None
      obtain z es2 st2 where df: "delete_files (Some cb) 0 root es1 st1 = (z, es2, st2)"
        by (cases "delete_files (Some cb) 0 root es1 st1") auto
      note dz = delete_files_zde[OF "2.prems"(1) df]
      obtain es3 st3 where rd: "remove_dirs root es2 st2 = (es3, st3)"
        by (cases "remove_dirs root es2 st2") auto
      from "2.prems"(2) True ws None df rd have xz: "x = z"
        by (cases z) simp_all
      from b c None dz True show ?thesis unfolding xz by auto
    qed
  qed
next
  case (3 root st)
  then show ?case by simp
next
  case (4 root fname sz stat_ok unlink_ok rest st)
  then show ?case by (auto simp: keep_eq)
next
  case (5 root d ls rm es rest st)
  obtain y n1 st1 where wd: "walk_delete (Some cb) 0 (root @ [d]) (Dir ls rm es) st = (y, n1, st1)"
    by (cases "walk_delete (Some cb) 0 (root @ [d]) (Dir ls rm es) st") auto
  from "5.hyps"(1)[OF "5.prems"(1) wd]
  have a: "y = None \<or> y = Some ZeroDivisionError"
    and b: "has_deletable_file (Dir ls rm es) \<longrightarrow> y = Some ZeroDivisionError" by simp_all
  from walk_delete_Dir[OF wd] obtain es1 where n1: "n1 = Dir ls rm es1" ..
  show ?case
  proof (cases y)
    case (Some e)
    with a wd "5.prems"(2) show ?thesis by (auto simp del: walk_delete.simps)
  next
    case None
    obtain z rest1 st2 where ws: "walk_subdirs (Some cb) 0 root rest st1 = (z, rest1, st2)"
      by (cases "walk_subdirs (Some cb) 0 root rest st1") auto
    from "5.hyps"(2)[OF wd[symmetric] None refl "5.prems"(1) ws]
    have c: "z = None \<or> z = Some ZeroDivisionError"
      "deletable_subdirs rest \<longrightarrow> z = Some ZeroDivisionError"
      "z = None \<longrightarrow> deletable_files rest1 = deletable_files rest" by simp_all
    from wd None ws "5.prems"(2) have "x = z" "es' = (d, n1) # rest1"
      by (simp_all del: walk_delete.simps)
    with b c None n1 show ?thesis by auto
  qed
qed

lemma file_count_entries_Cons:
  "file_count_entries ((c, n) # rest) = file_count n + file_count_entries rest"
  by (cases n) simp_all

lemma delete_file_removed:
  "delete_file cb t fp sz so uo st = (Some e, rmd, st') \<Longrightarrow> rmd"
  by (auto simp: delete_file_def Let_def split: if_splits option.splits)

lemma delete_files_count:
  "delete_files cb t r es st = (x, es', st') \<Longrightarrow>
     file_count_entries es' \<le> file_count_entries es \<and>
     (x \<noteq> None \<longrightarrow> file_count_entries es' < file_count_entries es)"
proof (induction cb t r es st arbitrary: x es' st' rule: delete_files.induct)
  case (1 cb total_size root st)
  then show ?case by simp
next
  case (2 cb total_size root d ls rm es rest st)
  then show ?case by (auto simp: keep_eq)
next
  case (3 cb total_size root fname sz stat_ok unlink_ok rest st)
  obtain y rmd st1 where
    df: "delete_file cb total_size (root @ [fname]) sz stat_ok unlink_ok st = (y, rmd, st1)"
    by (cases "delete_file cb total_size (root @ [fname]) sz stat_ok unlink_ok st") auto
  show ?case
  proof (cases y)
    case (Some e)
    with df delete_file_removed have rmd by blast
    with df Some "3.prems" show ?thesis by auto
  next
    case None
    show ?thesis
    proof (cases rmd)
      case True
      from "3.IH"(1)[OF df[symmetric] None refl True] "3.prems" df None True
      show ?thesis by auto
    next
      case False
      from "3.IH"(2)[OF df[symmetric] None refl False] "3.prems" df None False
      show ?thesis by (auto simp: keep_eq)
    qed
  qed
qed

lemma remove_dirs_count:
  "remove_dirs r es st = (es', st') \<Longrightarrow> file_count_entries es' = file_count_entries es"
proof (induction r es st arbitrary: es' st' rule: remove_dirs.induct)
  case (1 root st)
  then show ?case by simp
next
  case (2 root fname sz stat_ok unlink_ok rest st)
  obtain es1 st1 where r: "remove_dirs root rest st = (es1, st1)"
    by (cases "remove_dirs root rest st") auto
  with "2.prems" have "es' = (fname, File sz stat_ok unlink_ok) # es1" by simp
  with "2.IH"[OF r] show ?case by simp
next
  case (3 root d ls rm es rest st)
  show ?case
  proof (cases "rmdir_error (root @ [d]) (Dir ls rm es)")
    case None
    then have "es = []" by (auto simp: rmdir_error_def split: if_splits)
    with "3.prems" "3.IH"(1)[OF None] None show ?thesis by simp
  next
    case (Some e)
    obtain es1 st1 where
      r: "remove_dirs root rest (add_error (dir_error (root @ [d]) e) st) = (es1, st1)"
      by (cases "remove_dirs root rest (add_error (dir_error (root @ [d]) e) st)") auto
    with "3.prems" Some have "es' = (d, Dir ls rm es) # es1" by simp
    with "3.IH"(2)[OF Some r] show ?thesis by simp
  qed
qed

lemma walk_count:
  "walk_delete cb t r n st = (x, n', st') \<Longrightarrow>
     file_count n' \<le> file_count n \<and> (x \<noteq> None \<longrightarrow> file_count n' < file_count n)"
  "walk_subdirs cb t r es st = (x, es', st') \<Longrightarrow>
     file_count_entries es' \<le> file_count_entries es \<and>
     (x \<noteq> None \<longrightarrow> file_count_entries es' < file_count_entries es)"
proof (induction cb t r n st and cb t r es st arbitrary: x n' st' and x es' st'
    rule: walk_delete_walk_subdirs.induct)
  case (1 cb total_size root sz stat_ok unlink_ok st)
  then show ?case by auto
next
  case (2 cb total_size root ls rm es st)
  show ?case
  proof (cases ls)
    case False
    with "2.prems" show ?thesis by auto
  next
    case True
    obtain y es1 st1 where ws: "walk_subdirs cb total_size root es st = (y, es1, st1)"
      by (cases "walk_subdirs cb total_size root es st") auto
    from "2.IH"[OF _ ws] True
    have a: "file_count_entries es1 \<le> file_count_entries es"
      "y \<noteq> None \<longrightarrow> file_count_entries es1 < file_count_entries es" by simp_all
    obtain z es2 st2 where df: "delete_files cb total_size root es1 st1 = (z, es2, st2)"
      by (cases "delete_files cb total_size root es1 st1") auto
    note b = delete_files_count[OF df]
    obtain es3 st3 where rd: "remove_dirs root es2 st2 = (es3, st3)"
      by (cases "remove_dirs root es2 st2") auto
    note c = remove_dirs_count[OF rd]
    from "2.prems" True ws df rd a b c show ?thesis
      by (cases y; cases z) auto
  qed
next
  case (3 cb total_size root st)
  then show ?case by simp
next
  case (4 cb total_size root fname sz stat_ok unlink_ok rest st)
  then show ?case by (auto simp: keep_eq)
next
  case (5 cb total_size root d ls rm es rest st)
  obtain y n1 st1 where wd: "walk_delete cb total_size (root @ [d]) (Dir ls rm es) st = (y, n1, st1)"
    by (cases "walk_delete cb total_size (root @ [d]) (Dir ls rm es) st") auto
  note a = "5.IH"(1)[OF wd]
  show ?case
  proof (cases y)
    case (Some e)
    with wd "5.prems" have "x = Some e" "es' = (d, n1) # rest"
      by (simp_all del: walk_delete.simps)
    with a Some show ?thesis by (simp add: file_count_entries_Cons del: walk_delete.simps)
  next
    case None
    obtain z rest1 st2 where ws: "walk_subdirs cb total_size root rest st1 = (z, rest1, st2)"
      by (cases "walk_subdirs cb total_size root rest st1") auto
    note b = "5.IH"(2)[OF wd[symmetric] None refl ws]
    from wd None ws "5.prems" have "x = z" "es' = (d, n1) # rest1"
      by (simp_all del: walk_delete.simps)
    with a b show ?thesis by (auto simp: file_count_entries_Cons simp del: walk_delete.simps)
  qed
qed

lemma lookup_replaced:
  "lookup fs p = Some n \<Longrightarrow> lookup (update_at fs p (Some n')) p = Some n'"
proof (induction p arbitrary: fs)
  case Nil
  then show ?case by simp
next
  case (Cons c cs)
  show ?case
  proof (cases fs)
    case (File sz so uo)
    with Cons.prems show ?thesis by simp
  next
    case (Dir ls rm es)
    with Cons.prems obtain m where m: "map_of es c = Some m" "lookup m cs = Some n"
      by (auto split: option.splits)
    from Cons.IH[OF m(2)] m(1) Dir show ?thesis
      by (simp add: map_of_update_entries[where f="\<lambda>n. update_at n cs (Some n')"])
  qed
qed

lemma venv_progress_zde: "zde (venv_progress percent (Some f) vd tv p)"
  by (simp add: zde_def venv_progress_def)

lemma safe_delete_venv_zero:
  assumes l: "lookup fs p = Some (Dir ls rm es)"
    and z: "walk_size (Dir ls rm es) = 0"
    and h: "has_deletable_file (Dir ls rm es)"
    and c: "zde cb"
  shows "\<exists>fs' n' st. safe_delete_venv fs p (Some cb) =
            ((False, ''Unexpected error during deletion: division by zero''), fs', st)
          \<and> lookup fs' p = Some n' \<and> file_count n' < file_count (Dir ls rm es)"
proof -
  let ?st0 = "\<lparr>bytes_removed = 0, errors = [], calls = []\<rparr>"
  obtain x n1 st1 where w: "walk_delete (Some cb) 0 p (Dir ls rm es) ?st0 = (x, n1, st1)"
    by (cases "walk_delete (Some cb) 0 p (Dir ls rm es) ?st0") auto
  from walk_zde(1)[OF c w] h have x: "x = Some ZeroDivisionError" by blast
  from walk_count(1)[OF w] x have fc: "file_count n1 < file_count (Dir ls rm es)" by simp
  from w x have d: "deletion (Some cb) 0 p (Dir ls rm es) = (Some ZeroDivisionError, Some n1, st1)"
    by (simp add: deletion_def del: walk_delete.simps)
  from l z d have "safe_delete_venv fs p (Some cb) =
      ((False, ''Unexpected error during deletion: division by zero''),
       update_at fs p (Some n1), st1)"
    by (simp add: safe_delete_venv_def del: walk_size.simps)
  with lookup_replaced[OF l, of n1] fc show ?thesis by blast
qed

lemmas cleaner_eval =
  safe_delete_venv_def deletion_def delete_root_def delete_file_def rmdir_error_def
  final_result_def add_error_def str_nat_digit digit_def Let_def

text \<open>
  C9. Within one call of \<open>safe_delete_venv\<close>, the values of \<open>bytes_removed\<close>
  passed to the successive calls of the progress callback are in non-decreasing order.
\<close>

theorem progress_bytes_nondecreasing:
  "sorted (map fst (calls (snd (snd (safe_delete_venv fs venv_path progress_callback)))))"
proof -
  have m0: "mono_calls \<lparr>bytes_removed = 0, errors = [], calls = []\<rparr>"
    by (simp add: mono_calls_def)
  have "mono_calls (snd (snd (safe_delete_venv fs venv_path progress_callback)))"
  proof (cases "lookup fs venv_path")
    case None
    with m0 show ?thesis by (simp add: safe_delete_venv_def)
  next
    case (Some n)
    show ?thesis
    proof (cases n)
      case (File sz so uo)
      with Some m0 show ?thesis by (simp add: safe_delete_venv_def)
    next
      case (Dir ls rm es)
      obtain x r st where d: "deletion progress_callback (walk_size (Dir ls rm es)) venv_path (Dir ls rm es) = (x, r, st)"
        by (cases "deletion progress_callback (walk_size (Dir ls rm es)) venv_path (Dir ls rm es)") auto
      from deletion_mono[OF d] Some Dir d show ?thesis
        by (cases x) (simp_all add: safe_delete_venv_def del: walk_size.simps)
    qed
  qed
  then show ?thesis by (simp add: mono_calls_def)
qed

theorem progress_bytes_nondecreasing_witness:
  "map fst (calls (snd (snd (safe_delete_venv fs_clean [''v''] (Some (\<lambda>b t. None)))))) = [20, 30]
   \<and> sorted [20, 30 :: nat]"
proof -
  have v: "map fst (calls (snd (snd (safe_delete_venv fs_clean [''v''] (Some (\<lambda>b t. None))))))
      = [20, 30]"
    by (simp add: cleaner_eval fs_clean_def)
  from progress_bytes_nondecreasing[of fs_clean "[''v'']" "Some (\<lambda>b t. None)"]
  have "sorted [20, 30 :: nat]" unfolding v .
  with v show ?thesis by (rule conjI)
qed

text \<open>The order is not strict: empty files repeat a value.\<close>

lemma progress_bytes_may_repeat:
  "map fst (calls (snd (snd (safe_delete_venv fs_zero [''v''] (Some (\<lambda>b t. None)))))) = [0, 0]"
  by (simp add: cleaner_eval fs_zero_def)

text \<open>
  On a directory whose \<open>stat\<close> answers, with \<open>x\<close> the exception that
  reached the outer handler and \<open>st\<close> the state at the end of the outer
  \<open>try\<close>: errors and bytes removed give success with the detail
  \<open>Partially deleted (N errors)\<close>; errors and no bytes removed give failure with
  the first three errors joined by newlines, followed by \<open>(and N more errors)\<close>
  when there are more than three; no errors give success with an empty detail; an
  exception gives failure with \<open>Unexpected error during deletion:\<close> and its text.
\<close>

theorem safe_delete_venv_result:
  assumes "lookup fs venv_path = Some (Dir ls rm es)"
    and "deletion progress_callback (walk_size (Dir ls rm es)) venv_path (Dir ls rm es) = (x, r, st)"
  shows "(x = None \<and> errors st \<noteq> [] \<and> bytes_removed st > 0 \<longrightarrow>
            fst (safe_delete_venv fs venv_path progress_callback) =
              (True, ''Partially deleted ('' @ str_nat (length (errors st)) @ '' errors)''))
       \<and> (x = None \<and> errors st \<noteq> [] \<and> bytes_removed st = 0 \<longrightarrow>
            fst (safe_delete_venv fs venv_path progress_callback) =
              (False, join [CHR 0x0A] (take 3 (errors st)) @
                 (if length (errors st) > 3
                  then '' (and '' @ str_nat (length (errors st) - 3) @ '' more errors)''
                  else [])))
       \<and> (x = None \<and> errors st = [] \<longrightarrow>
            fst (safe_delete_venv fs venv_path progress_callback) = (True, []))
       \<and> (\<forall>e. x = Some e \<longrightarrow>
            fst (safe_delete_venv fs venv_path progress_callback) =
              (False, ''Unexpected error during deletion: '' @ str_exn e))"
  using assms
  by (cases x) (simp_all add: safe_delete_venv_def final_result_def del: walk_size.simps)

theorem safe_delete_venv_result_witness:
  "fst (safe_delete_venv fs_partial [''v''] None) = (True, ''Partially deleted (2 errors)'')
   \<and> fst (safe_delete_venv fs_locked [''v''] None) =
       (False,
        join [CHR 0x0A]
          [file_error [''v'', ''a''] (OSError EACCES [''v'', ''a'']),
           file_error [''v'', ''b''] (OSError EACCES [''v'', ''b'']),
           file_error [''v'', ''c''] (OSError EACCES [''v'', ''c''])]
        @ '' (and 1 more errors)'')
   \<and> fst (safe_delete_venv fs_clean [''v''] None) = (True, [])
   \<and> fst (safe_delete_venv fs_clean [''v''] (Some (\<lambda>b t. Some (OtherException ''boom'')))) =
       (False, ''Unexpected error during deletion: boom'')"
proof -
  have l1: "lookup fs_partial [''v''] =
      Some (Dir True True [(''a'', File 10 True True), (''b'', File 5 True False)])"
    by (simp add: fs_partial_def)
  have d1: "deletion None
      (walk_size (Dir True True [(''a'', File 10 True True), (''b'', File 5 True False)]))
      [''v''] (Dir True True [(''a'', File 10 True True), (''b'', File 5 True False)]) =
      (None, Some (Dir True True [(''b'', File 5 True False)]),
       \<lparr>bytes_removed = 10,
          errors = [file_error [''v'', ''b''] (OSError EACCES [''v'', ''b'']),
                    root_error (OSError EACCES [''v'', ''b''])],
          calls = []\<rparr>)"
    by (simp add: deletion_def delete_root_def delete_file_def rmdir_error_def add_error_def)
  from safe_delete_venv_result[OF l1 d1]
  have a: "fst (safe_delete_venv fs_partial [''v''] None) = (True, ''Partially deleted (2 errors)'')"
    by (simp add: str_nat_digit digit_def)
  have l2: "lookup fs_locked [''v''] =
      Some (Dir True True [(''a'', File 10 True False), (''b'', File 5 True False),
                           (''c'', File 5 False True)])"
    by (simp add: fs_locked_def)
  have d2: "deletion None
      (walk_size (Dir True True [(''a'', File 10 True False), (''b'', File 5 True False),
                           (''c'', File 5 False True)]))
      [''v''] (Dir True True [(''a'', File 10 True False), (''b'', File 5 True False),
                           (''c'', File 5 False True)]) =
      (None, Some (Dir True True [(''a'', File 10 True False), (''b'', File 5 True False),
                           (''c'', File 5 False True)]),
       \<lparr>bytes_removed = 0,
          errors = [file_error [''v'', ''a''] (OSError EACCES [''v'', ''a'']),
                    file_error [''v'', ''b''] (OSError EACCES [''v'', ''b'']),
                    file_error [''v'', ''c''] (OSError EACCES [''v'', ''c'']),
                    root_error (OSError EACCES [''v'', ''a''])],
          calls = []\<rparr>)"
    by (simp add: deletion_def delete_root_def delete_file_def rmdir_error_def add_error_def)
  from safe_delete_venv_result[OF l2 d2]
  have b: "fst (safe_delete_venv fs_locked [''v''] None) =
       (False,
        join [CHR 0x0A]
          [file_error [''v'', ''a''] (OSError EACCES [''v'', ''a'']),
           file_error [''v'', ''b''] (OSError EACCES [''v'', ''b'']),
           file_error [''v'', ''c''] (OSError EACCES [''v'', ''c''])]
        @ '' (and 1 more errors)'')"
    by (simp add: str_nat_digit digit_def)
  have l3: "lookup fs_clean [''v''] =
      Some (Dir True True [(''a'', File 10 True True),
                           (''lib'', Dir True True [(''b'', File 20 True True)])])"
    by (simp add: fs_clean_def)
  have d3: "deletion None
      (walk_size (Dir True True [(''a'', File 10 True True),
                           (''lib'', Dir True True [(''b'', File 20 True True)])]))
      [''v''] (Dir True True [(''a'', File 10 True True),
                           (''lib'', Dir True True [(''b'', File 20 True True)])]) =
      (None, None, \<lparr>bytes_removed = 30, errors = [], calls = []\<rparr>)"
    by (simp add: deletion_def delete_root_def delete_file_def rmdir_error_def add_error_def)
  from safe_delete_venv_result[OF l3 d3]
  have c: "fst (safe_delete_venv fs_clean [''v''] None) = (True, [])"
    by simp
  have d4: "deletion (Some (\<lambda>b t. Some (OtherException ''boom'')))
      (walk_size (Dir True True [(''a'', File 10 True True),
                           (''lib'', Dir True True [(''b'', File 20 True True)])]))
      [''v''] (Dir True True [(''a'', File 10 True True),
                           (''lib'', Dir True True [(''b'', File 20 True True)])]) =
      (Some (OtherException ''boom''),
       Some (Dir True True [(''a'', File 10 True True), (''lib'', Dir True True [])]),
       \<lparr>bytes_removed = 20, errors = [], calls = [(20, 30)]\<rparr>)"
    by (simp add: deletion_def delete_root_def delete_file_def rmdir_error_def add_error_def)
  from safe_delete_venv_result[OF l3 d4]
  have d: "fst (safe_delete_venv fs_clean [''v''] (Some (\<lambda>b t. Some (OtherException ''boom'')))) =
       (False, ''Unexpected error during deletion: boom'')"
    by simp
  from a b c d show ?thesis by (intro conjI)
qed

text \<open>
  C2, as stated, fails: with one file that cannot be unlinked the call reports success
  (partial deletion) and the directory is still there.
\<close>

theorem partial_success_leaves_path:
  "fst (safe_delete_venv fs_partial [''v''] None) = (True, ''Partially deleted (2 errors)'')
   \<and> exists (fst (snd (safe_delete_venv fs_partial [''v''] None))) [''v'']"
  by (simp add: cleaner_eval fs_partial_def exists_def)

text \<open>
  C2, amended. When \<open>safe_delete_venv\<close> returns success with an empty detail, the
  path no longer exists afterwards. In the loop of \<open>delete_multiple_venvs\<close>, when
  the callback returns on the path's description, a successful path adds to
  \<open>bytes_freed\<close> exactly the size measured for it just before its deletion, and
  a failed path adds nothing.
\<close>

theorem clean_success_removes_path:
  "(fst (safe_delete_venv fs D cb) = (True, []) \<longrightarrow>
      \<not> exists (fst (snd (safe_delete_venv fs D cb))) D)
   \<and> ((case pc of None \<Rightarrow> None | Some f \<Rightarrow> f vd tv (str_path D)) = None \<longrightarrow>
        delete_loop percent pc tv (D # rest) fs (vd, bf, fl) =
          (let r = safe_delete_venv fs D (Some (venv_progress percent pc vd tv D))
           in delete_loop percent pc tv rest (fst (snd r))
                (if fst (fst r) then (vd + 1, bf + size_at fs D, fl)
                 else (vd, bf, fl @ [(D, snd (fst r))]))))"
proof (intro conjI impI)
  assume "fst (safe_delete_venv fs D cb) = (True, [])"
  then show "\<not> exists (fst (snd (safe_delete_venv fs D cb))) D"
    by (rule safe_delete_venv_clean)
next
  assume "(case pc of None \<Rightarrow> None | Some f \<Rightarrow> f vd tv (str_path D)) = None"
  then show "delete_loop percent pc tv (D # rest) fs (vd, bf, fl) =
          (let r = safe_delete_venv fs D (Some (venv_progress percent pc vd tv D))
           in delete_loop percent pc tv rest (fst (snd r))
                (if fst (fst r) then (vd + 1, bf + size_at fs D, fl)
                 else (vd, bf, fl @ [(D, snd (fst r))])))"
    by (cases "safe_delete_venv fs D (Some (venv_progress percent pc vd tv D))")
       (auto simp: Let_def)
qed

theorem clean_success_removes_path_witness:
  "fst (safe_delete_venv fs_clean [''v''] None) = (True, [])
   \<and> \<not> exists (fst (snd (safe_delete_venv fs_clean [''v''] None))) [''v'']
   \<and> fst (delete_loop (\<lambda>b t. []) None 1 [[''v'']] fs_clean (0, 0, [])) = Inr (1, 30, [])"
proof -
  have a: "fst (safe_delete_venv fs_clean [''v''] None) = (True, [])"
    by (simp add: cleaner_eval fs_clean_def)
  have b: "(case None :: batch_progress option of None \<Rightarrow> None
            | Some f \<Rightarrow> f 0 1 (str_path [''v''])) = None"
    by simp
  have s: "safe_delete_venv fs_clean [''v''] (Some (venv_progress (\<lambda>b t. []) None 0 tv [''v''])) =
      ((True, []), Dir True True [(''w'', File 1 True True)],
       \<lparr>bytes_removed = 30, errors = [], calls = [(20, 30), (30, 30)]\<rparr>)" for tv
    by (simp add: cleaner_eval fs_clean_def venv_progress_def)
  have z: "size_at fs_clean [''v''] = 30"
    by (simp add: size_at_def fs_clean_def)
  note t = clean_success_removes_path
      [where fs=fs_clean and D="[''v'']" and cb=None and pc=None and vd=0 and tv=1
         and percent="\<lambda>b t. []" and rest="[]" and bf=0 and fl="[]"]
  from t a have c: "\<not> exists (fst (snd (safe_delete_venv fs_clean [''v''] None))) [''v'']"
    by blast
  from t b have "delete_loop (\<lambda>b t. []) None 1 [[''v'']] fs_clean (0, 0, []) =
      (let r = safe_delete_venv fs_clean [''v''] (Some (venv_progress (\<lambda>b t. []) None 0 1 [''v'']))
           in delete_loop (\<lambda>b t. []) None 1 [] (fst (snd r))
                (if fst (fst r) then (0 + 1, 0 + size_at fs_clean [''v''], [])
                 else (0, 0, [] @ [([''v''], snd (fst r))])))"
    by blast
  then have d: "fst (delete_loop (\<lambda>b t. []) None 1 [[''v'']] fs_clean (0, 0, [])) = Inr (1, 30, [])"
    by (simp add: s z Let_def)
  from a c d show ?thesis by (intro conjI)
qed

text \<open>
  On paths whose \<open>stat\<close> answers: whenever \<open>delete_multiple_venvs\<close>
  returns a report, the number of deleted environments plus the number of failures is
  the number of paths; and it does return a report whenever the callback, if there is
  one, returns on the plain description of every path.
\<close>

theorem delete_multiple_venvs_accounts_for_all:
  "(\<forall>vd bf fl. fst (delete_multiple_venvs percent fs venv_paths progress_callback) = Inr (vd, bf, fl)
        \<longrightarrow> vd + length fl = length venv_paths)
   \<and> ((\<forall>f. progress_callback = Some f \<longrightarrow>
          (\<forall>p \<in> set venv_paths. \<forall>d. f d (length venv_paths) (str_path p) = None))
        \<longrightarrow> (\<exists>vd bf fl. fst (delete_multiple_venvs percent fs venv_paths progress_callback) =
               Inr (vd, bf, fl)))"
proof (intro conjI allI impI)
  fix vd bf fl
  assume "fst (delete_multiple_venvs percent fs venv_paths progress_callback) = Inr (vd, bf, fl)"
  then obtain fs' where "delete_loop percent progress_callback (length venv_paths) venv_paths fs (0, 0, [])
      = (Inr (vd, bf, fl), fs')"
    by (cases "delete_loop percent progress_callback (length venv_paths) venv_paths fs (0, 0, [])")
       (simp add: delete_multiple_venvs_def)
  from delete_loop_count[OF this] show "vd + length fl = length venv_paths" by simp
next
  assume a: "\<forall>f. progress_callback = Some f \<longrightarrow>
          (\<forall>p \<in> set venv_paths. \<forall>d. f d (length venv_paths) (str_path p) = None)"
  have "\<exists>r fs'. delete_loop percent progress_callback (length venv_paths) venv_paths fs (0, 0, [])
      = (Inr r, fs')"
    by (rule delete_loop_returns) (use a in blast)
  then show "\<exists>vd bf fl. fst (delete_multiple_venvs percent fs venv_paths progress_callback) =
               Inr (vd, bf, fl)"
    by (auto simp: delete_multiple_venvs_def)
qed

theorem delete_multiple_venvs_accounts_for_all_witness:
  "picky 0 2 (str_path [''v'']) = None \<and> picky 1 2 (str_path [''q'']) = None
   \<and> (\<exists>vd bf fl.
         fst (delete_multiple_venvs (\<lambda>b t. []) fs_partial [[''v''], [''q'']] (Some picky)) =
           Inr (vd, bf, fl)
         \<and> vd + length fl = length [[''v''], [''q'']])"
proof -
  have h: "\<forall>f. Some picky = Some f \<longrightarrow>
       (\<forall>p \<in> set [[''v''], [''q'']]. \<forall>d. f d (length [[''v''], [''q'']]) (str_path p) = None)"
    by (simp add: picky_def str_path_def)
  have k: "picky 0 2 (str_path [''v'']) = None" "picky 1 2 (str_path [''q'']) = None"
    by (simp_all add: picky_def str_path_def)
  note t = delete_multiple_venvs_accounts_for_all
      [of "\<lambda>b t. []" fs_partial "[[''v''], [''q'']]" "Some picky"]
  from t h obtain vd bf fl where
    r: "fst (delete_multiple_venvs (\<lambda>b t. []) fs_partial [[''v''], [''q'']] (Some picky)) =
           Inr (vd, bf, fl)"
    by blast
  with t have "vd + length fl = length [[''v''], [''q'']]" by blast
  with k r show ?thesis by blast
qed

text \<open>Here the callback raises on every progress description; both paths are failures.\<close>

lemma batch_example:
  "fst (delete_multiple_venvs (\<lambda>b t. []) fs_partial [[''v''], [''q'']] (Some picky)) =
     Inr (0, 0, [([''v''], ''Unexpected error during deletion: no''),
                 ([''q''], ''Directory does not exist: /q'')])"
  by (simp add: delete_multiple_venvs_def cleaner_eval fs_partial_def venv_progress_def
      picky_def size_at_def str_path_def)

text \<open>
  C10. With a callback, a directory whose measured size is \<open>0\<close> and that holds a
  deletable file is reported as a failure with the detail
  \<open>Unexpected error during deletion: division by zero\<close>; the directory is still
  there afterwards, with fewer files than before.
\<close>

theorem zero_total_reported_as_failure:
  assumes "lookup fs p = Some (Dir ls rm es)"
    and "walk_size (Dir ls rm es) = 0"
    and "has_deletable_file (Dir ls rm es)"
    and "f vd tv (str_path p) = None"
  shows "\<exists>fs' n'.
           fst (safe_delete_venv fs p (Some (venv_progress percent (Some f) vd tv p))) =
             (False, ''Unexpected error during deletion: division by zero'')
         \<and> fs' = fst (snd (safe_delete_venv fs p (Some (venv_progress percent (Some f) vd tv p))))
         \<and> delete_loop percent (Some f) tv (p # rest) fs (vd, bf, fl) =
             delete_loop percent (Some f) tv rest fs'
               (vd, bf, fl @ [(p, ''Unexpected error during deletion: division by zero'')])
         \<and> lookup fs' p = Some n' \<and> file_count n' < file_count (Dir ls rm es)"
proof -
  from safe_delete_venv_zero[OF assms(1-3) venv_progress_zde[of percent f vd tv p]]
  obtain fs' n' st where
    s: "safe_delete_venv fs p (Some (venv_progress percent (Some f) vd tv p)) =
            ((False, ''Unexpected error during deletion: division by zero''), fs', st)"
    and l: "lookup fs' p = Some n'" and c: "file_count n' < file_count (Dir ls rm es)"
    by blast
  from s assms(4) have "delete_loop percent (Some f) tv (p # rest) fs (vd, bf, fl) =
             delete_loop percent (Some f) tv rest fs'
               (vd, bf, fl @ [(p, ''Unexpected error during deletion: division by zero'')])"
    by simp
  with s l c show ?thesis by simp
qed

theorem zero_total_reported_as_failure_witness:
  "lookup fs_zero [''v''] =
     Some (Dir True True
        [(''lib'', Dir True True [(''__init__.py'', File 0 True True), (''x'', File 0 True True)])])
   \<and> walk_size (Dir True True
        [(''lib'', Dir True True [(''__init__.py'', File 0 True True), (''x'', File 0 True True)])]) = 0
   \<and> has_deletable_file (Dir True True
        [(''lib'', Dir True True [(''__init__.py'', File 0 True True), (''x'', File 0 True True)])])
   \<and> quiet 0 1 (str_path [''v'']) = None
   \<and> fst (delete_multiple_venvs (\<lambda>b t. []) fs_zero [[''v'']] (Some quiet)) =
       Inr (0, 0, [([''v''], ''Unexpected error during deletion: division by zero'')])"
proof -
  let ?n = "Dir True True
        [(''lib'', Dir True True [(''__init__.py'', File 0 True True), (''x'', File 0 True True)])]"
  have a: "lookup fs_zero [''v''] = Some ?n" by (simp add: fs_zero_def)
  have b: "walk_size ?n = 0" by simp
  have c: "has_deletable_file ?n" by simp
  have d: "quiet 0 1 (str_path [''v'']) = None" by (simp add: quiet_def)
  from zero_total_reported_as_failure
      [where f=quiet and vd=0 and tv=1 and percent="\<lambda>b t. []" and rest="[]" and bf=0
         and fl="[]", OF a b c d]
  have "fst (delete_loop (\<lambda>b t. []) (Some quiet) 1 [[''v'']] fs_zero (0, 0, [])) =
      Inr (0, 0, [([''v''], ''Unexpected error during deletion: division by zero'')])"
    by auto
  then have e: "fst (delete_multiple_venvs (\<lambda>b t. []) fs_zero [[''v'']] (Some quiet)) =
       Inr (0, 0, [([''v''], ''Unexpected error during deletion: division by zero'')])"
    by (simp add: delete_multiple_venvs_def)
  from a b c d e show ?thesis by (intro conjI)
qed

text \<open>Without a callback the same directory is deleted and counted.\<close>

lemma zero_total_without_callback:
  "fst (delete_multiple_venvs (\<lambda>b t. []) fs_zero [[''v'']] None) = Inr (1, 0, [])"
  by (simp add: delete_multiple_venvs_def cleaner_eval fs_zero_def venv_progress_def size_at_def)

subsection \<open>The test before the outer try\<close>

text \<open>
  Where \<open>stat\<close> answers, the calls are the functions studied above; where it
  fails, its exception leaves \<open>safe_delete_venv\<close>.
\<close>

lemma safe_delete_venv_call_searchable:
  "stat_error locked p = None \<Longrightarrow>
     safe_delete_venv_call locked fs p cb = Inr (safe_delete_venv fs p cb)"
  by (simp add: safe_delete_venv_call_def exists_call_def is_dir_call_def)

lemma safe_delete_venv_call_locked:
  "stat_error locked p = Some e \<Longrightarrow> safe_delete_venv_call locked fs p cb = Inl e"
  by (simp add: safe_delete_venv_call_def exists_call_def)

lemma stat_error_nothing_locked: "stat_error [] p = None"
  by (simp add: stat_error_def)

lemma delete_loop_call_searchable:
  "(\<And>p. p \<in> set paths \<Longrightarrow> stat_error locked p = None) \<Longrightarrow>
     delete_loop_call locked percent pc tv paths fs acc = delete_loop percent pc tv paths fs acc"
proof (induction paths arbitrary: fs acc)
  case Nil
  then show ?case by simp
next
  case (Cons p ps)
  obtain vd bf fl where acc: "acc = (vd, bf, fl)" by (cases acc) auto
  have s: "stat_error locked p = None" by (rule Cons.prems) simp
  have ih: "\<And>fs acc. delete_loop_call locked percent pc tv ps fs acc =
      delete_loop percent pc tv ps fs acc"
    by (rule Cons.IH) (simp add: Cons.prems)
  obtain ok err fs1 st where
    r: "safe_delete_venv fs p (Some (venv_progress percent pc vd tv p)) = ((ok, err), fs1, st)"
    by (cases "safe_delete_venv fs p (Some (venv_progress percent pc vd tv p))") auto
  show ?case
  proof (cases "case pc of None \<Rightarrow> None | Some f \<Rightarrow> f vd tv (str_path p)")
    case (Some e)
    then show ?thesis unfolding acc by simp
  next
    case None
    then show ?thesis
      unfolding acc
      by (simp add: safe_delete_venv_call_searchable[OF s] size_at_call_def s r ih)
  qed
qed

lemma delete_multiple_venvs_call_nothing_locked:
  "delete_multiple_venvs_call [] percent fs paths pc = delete_multiple_venvs percent fs paths pc"
  by (simp add: delete_multiple_venvs_call_def delete_multiple_venvs_def
      delete_loop_call_searchable stat_error_nothing_locked)

text \<open>
  Whenever the loop does return a report, every path is counted once; and it raises at
  the first path whose \<open>stat\<close> fails, whatever paths are left.
\<close>

lemma delete_loop_call_count:
  "delete_loop_call locked percent pc tv paths fs (vd, bf, fl) = (Inr (vd', bf', fl'), fs') \<Longrightarrow>
     vd' + length fl' = vd + length fl + length paths"
proof (induction paths arbitrary: fs vd bf fl)
  case Nil
  then show ?case by simp
next
  case (Cons p ps)
  from Cons.prems have direct: "(case pc of None \<Rightarrow> None | Some f \<Rightarrow> f vd tv (str_path p)) = None"
    by (auto split: option.splits)
  from Cons.prems direct obtain ok err fs1 st where
    s: "safe_delete_venv_call locked fs p (Some (venv_progress percent pc vd tv p)) =
          Inr ((ok, err), fs1, st)"
    by (cases "safe_delete_venv_call locked fs p (Some (venv_progress percent pc vd tv p))")
       (auto simp: Let_def)
  show ?case
  proof (cases ok)
    case True
    with Cons.prems direct s
    have "delete_loop_call locked percent pc tv ps fs1
            (vd + 1, bf + size_at_call locked fs p, fl) = (Inr (vd', bf', fl'), fs')"
      by simp
    from Cons.IH[OF this] show ?thesis by simp
  next
    case False
    with Cons.prems direct s
    have "delete_loop_call locked percent pc tv ps fs1 (vd, bf, fl @ [(p, err)]) =
            (Inr (vd', bf', fl'), fs')"
      by simp
    from Cons.IH[OF this] show ?thesis by simp
  qed
qed

lemma delete_loop_call_raises:
  assumes "stat_error locked p = Some e"
    and "(case pc of None \<Rightarrow> None | Some f \<Rightarrow> f vd tv (str_path p)) = None"
  shows "delete_loop_call locked percent pc tv (p # rest) fs (vd, bf, fl) = (Inl e, fs)"
  using assms by (simp add: safe_delete_venv_call_locked)

text \<open>
  C4. On an existing directory below a directory that cannot be searched, the exception
  of the test at the head of \<open>safe_delete_venv\<close> is not caught: the call raises
  \<open>PermissionError\<close> and returns no pair.
\<close>

theorem safe_delete_venv_call_raises:
  "is_dir fs_srv [''srv'', ''venv'']
   \<and> safe_delete_venv_call [[''srv'']] fs_srv [''srv'', ''venv''] None =
        Inl (OSError EACCES [''srv'', ''venv''])"
  by (simp add: safe_delete_venv_call_def exists_call_def stat_error_def is_dir_def fs_srv_def)

text \<open>
  C8. With the first of two paths below a directory that cannot be searched,
  \<open>delete_multiple_venvs\<close> raises \<open>PermissionError\<close>: no report is
  returned and the second path is not visited.
\<close>

theorem delete_multiple_venvs_call_raises:
  "delete_multiple_venvs_call [[''srv'']] (\<lambda>b t. []) fs_srv [[''srv'', ''venv''], [''v'']] None =
     (Inl (OSError EACCES [''srv'', ''venv'']), fs_srv)"
  by (simp add: delete_multiple_venvs_call_def safe_delete_venv_call_def exists_call_def
      stat_error_def)

text \<open>With every directory searchable, the same call deletes both and reports them.\<close>

lemma delete_multiple_venvs_call_reports: "fst (delete_multiple_venvs_call [] (\<lambda>b t. []) fs_srv [[''srv'', ''venv''], [''v'']] None) =
     Inr (2, 20, [])"
  by (simp add: delete_multiple_venvs_call_nothing_locked delete_multiple_venvs_def cleaner_eval
      fs_srv_def venv_progress_def size_at_def)

end
